theory Spec2Isabelle
  imports Main "HOL-Library.Word" "HOL-Library.AList" "HOL-Library.Sublist"
begin

section \<open>The world the migration script acts on\<close>

text \<open>
  The script (\<^verbatim>\<open>src/main.py\<close>) contains no algorithm of its own: every effect is a call
  into \<^verbatim>\<open>pathlib\<close>, \<^verbatim>\<open>os\<close>, \<^verbatim>\<open>shutil\<close> or \<^verbatim>\<open>print\<close>. The embedding therefore has two
  layers. The first layer is a model of the file system and of the library calls the
  script makes; the second layer is the script itself, translated method by method.

  A path is the list of its components below the root, so \<^verbatim>\<open>Path.parent\<close> is
  \<open>butlast\<close> (the parent of the root is the root) and \<^verbatim>\<open>a / b\<close> is \<open>a @ b\<close>. The file
  system is an association list from paths to entries, read through \<open>map_of\<close>; an
  association list keeps the model executable, since \<^verbatim>\<open>os.walk\<close> has to enumerate the
  children of a directory. An entry is a regular file with its bytes or a directory.

  What the model leaves out: symbolic links, file metadata (so \<^verbatim>\<open>shutil.copy2\<close> is the
  copy of the bytes), permissions, locks and every other failure that depends on the
  environment rather than on the shape of the tree. A library call fails in the model
  exactly when the kinds of the entries involved make it fail (a file where a directory
  is needed, a directory where a file is needed, a missing parent). Removal is refused
  for no path, the root included. Names are compared as they are written, as on a
  case-sensitive file system.
\<close>

type_synonym path = "string list"
type_synonym bytes = "8 word list"

datatype entry = File bytes | Dir

type_synonym filesystem = "(path \<times> entry) list"

datatype py_error =
    FileExistsError
  | FileNotFoundError
  | NotADirectoryError
  | IsADirectoryError
  | SameFileError
  | ValueError

record world =
  files :: filesystem
  stdout :: "string list"

text \<open>
  The result of running a method: it returned, or an exception left it. Either way the
  world is the one reached at that moment, because effects are not rolled back.
\<close>

datatype outcome = Returned world | Raised py_error world

text \<open>
  \<^verbatim>\<open>datetime.now()\<close> is input from the environment. The clock is a parameter: the
  time stamp read while the \<open>k\<close>-th line of the output is printed.
\<close>

type_synonym clock = "nat \<Rightarrow> string"

subsection \<open>Reading the file system\<close>

definition lookup :: "filesystem \<Rightarrow> path \<Rightarrow> entry option" where
  "lookup fs p = map_of fs p"

text \<open>\<^verbatim>\<open>Path.exists()\<close> and \<^verbatim>\<open>Path.is_dir()\<close>.\<close>

definition path_exists :: "filesystem \<Rightarrow> path \<Rightarrow> bool" where
  "path_exists fs p = (lookup fs p \<noteq> None)"

definition is_dir :: "filesystem \<Rightarrow> path \<Rightarrow> bool" where
  "is_dir fs p = (lookup fs p = Some Dir)"

text \<open>\<^verbatim>\<open>Path.parent\<close>.\<close>

definition parent :: "path \<Rightarrow> path" where
  "parent p = butlast p"

text \<open>
  \<^verbatim>\<open>str(path)\<close>, in POSIX notation. Only log messages use it.
\<close>

definition path_str :: "path \<Rightarrow> string" where
  "path_str p = (if p = [] then ''/'' else concat (map (\<lambda>c. ''/'' @ c) p))"

text \<open>
  \<^verbatim>\<open>str(e)\<close> for a caught exception. The interpreter's wording (errno, file name) is
  not reproduced; only log messages use it.
\<close>

fun error_str :: "py_error \<Rightarrow> string" where
  "error_str FileExistsError = ''File exists''"
| "error_str FileNotFoundError = ''No such file or directory''"
| "error_str NotADirectoryError = ''Not a directory''"
| "error_str IsADirectoryError = ''Is a directory''"
| "error_str SameFileError = ''are the same file''"
| "error_str ValueError = ''is not in the subpath''"

text \<open>
  \<^verbatim>\<open>os.scandir(root)\<close> as \<^verbatim>\<open>os.walk\<close> uses it: it fails unless \<open>root\<close> is a directory;
  otherwise it lists the names directly below \<open>root\<close>, each once, split into the
  directories and the rest.
\<close>

definition child_names :: "filesystem \<Rightarrow> path \<Rightarrow> string list" where
  "child_names fs root =
     remdups (map last (filter (\<lambda>q. q \<noteq> [] \<and> butlast q = root) (map fst fs)))"

definition os_scandir :: "filesystem \<Rightarrow> path \<Rightarrow> (string list \<times> string list) option" where
  "os_scandir fs root =
     (if is_dir fs root
      then Some (filter (\<lambda>n. is_dir fs (root @ [n])) (child_names fs root),
                 filter (\<lambda>n. \<not> is_dir fs (root @ [n])) (child_names fs root))
      else None)"

subsection \<open>Writing the file system\<close>

definition write_entry :: "filesystem \<Rightarrow> path \<Rightarrow> entry \<Rightarrow> filesystem" where
  "write_entry fs p e = AList.update p e fs"

text \<open>
  \<^verbatim>\<open>os.mkdir(p)\<close>: the parent has to be a directory and \<open>p\<close> must not exist. The
  path is resolved first, so a bad parent is reported before an existing \<open>p\<close>.
\<close>

definition os_mkdir :: "filesystem \<Rightarrow> path \<Rightarrow> py_error + filesystem" where
  "os_mkdir fs p =
     (if p = [] then (if path_exists fs p then Inl FileExistsError else Inl FileNotFoundError)
      else (case lookup fs (parent p) of
              None \<Rightarrow> Inl FileNotFoundError
            | Some (File c) \<Rightarrow> Inl NotADirectoryError
            | Some Dir \<Rightarrow>
                if path_exists fs p then Inl FileExistsError
                else Inr (write_entry fs p Dir)))"

text \<open>
  \<^verbatim>\<open>Path.mkdir(parents=False, exist_ok=True)\<close>: any \<^verbatim>\<open>OSError\<close> but
  \<^verbatim>\<open>FileNotFoundError\<close> is swallowed when the path is a directory already.
\<close>

definition mkdir_exist_ok :: "filesystem \<Rightarrow> path \<Rightarrow> py_error + filesystem" where
  "mkdir_exist_ok fs p =
     (case os_mkdir fs p of
        Inr fs' \<Rightarrow> Inr fs'
      | Inl FileNotFoundError \<Rightarrow> Inl FileNotFoundError
      | Inl e \<Rightarrow> if is_dir fs p then Inr fs else Inl e)"

text \<open>
  \<^verbatim>\<open>Path.mkdir(parents=True, exist_ok=True)\<close>, after pathlib's code: try
  \<^verbatim>\<open>os.mkdir\<close>; on \<^verbatim>\<open>FileNotFoundError\<close> create the parent the same way and then the
  path itself without \<open>parents\<close>; on another \<^verbatim>\<open>OSError\<close> re-raise unless the path is
  a directory.
\<close>

function mkdir_parents :: "filesystem \<Rightarrow> path \<Rightarrow> py_error + filesystem" where
  "mkdir_parents fs p =
     (case os_mkdir fs p of
        Inr fs' \<Rightarrow> Inr fs'
      | Inl FileNotFoundError \<Rightarrow>
          if parent p = p then Inl FileNotFoundError
          else (case mkdir_parents fs (parent p) of
                  Inl e \<Rightarrow> Inl e
                | Inr fs' \<Rightarrow> mkdir_exist_ok fs' p)
      | Inl e \<Rightarrow> if is_dir fs p then Inr fs else Inl e)"
  by pat_completeness auto
termination
proof (relation "measure (\<lambda>(fs, p). length p)")
  show "wf (measure (\<lambda>(fs, p). length p))" by simp
next
  fix fs :: filesystem and p :: path and x y
  assume "parent p \<noteq> p"
  then have "p \<noteq> []" by (auto simp: parent_def)
  then show "((fs, parent p), (fs, p)) \<in> measure (\<lambda>(fs, p). length p)"
    by (simp add: parent_def)
qed

text \<open>
  \<^verbatim>\<open>shutil.copy2(src_file, dest_file)\<close>: a destination that is a directory stands
  for the file of the same base name inside it; copying a file onto itself is refused;
  the source is opened for reading and then the destination for writing.
\<close>

definition shutil_copy2 :: "filesystem \<Rightarrow> path \<Rightarrow> path \<Rightarrow> py_error + filesystem" where
  "shutil_copy2 fs src_file dest_file =
     (let d = (if is_dir fs dest_file \<and> src_file \<noteq> [] then dest_file @ [last src_file]
               else dest_file)
      in if src_file = d then Inl SameFileError
         else (case lookup fs src_file of
                 None \<Rightarrow> Inl FileNotFoundError
               | Some Dir \<Rightarrow> Inl IsADirectoryError
               | Some (File c) \<Rightarrow>
                   (case lookup fs d of
                      Some Dir \<Rightarrow> Inl IsADirectoryError
                    | Some (File c') \<Rightarrow> Inr (write_entry fs d (File c))
                    | None \<Rightarrow>
                        if d = [] then Inl FileNotFoundError
                        else (case lookup fs (parent d) of
                                None \<Rightarrow> Inl FileNotFoundError
                              | Some (File c') \<Rightarrow> Inl NotADirectoryError
                              | Some Dir \<Rightarrow> Inr (write_entry fs d (File c))))))"

text \<open>\<^verbatim>\<open>shutil.rmtree(p)\<close> on a directory: the directory and everything below it goes.\<close>

definition shutil_rmtree :: "filesystem \<Rightarrow> path \<Rightarrow> py_error + filesystem" where
  "shutil_rmtree fs p =
     (case lookup fs p of
        None \<Rightarrow> Inl FileNotFoundError
      | Some (File c) \<Rightarrow> Inl NotADirectoryError
      | Some Dir \<Rightarrow> Inr (filter (\<lambda>(q, e). \<not> prefix p q) fs))"

text \<open>
  \<^verbatim>\<open>Path.unlink(missing_ok=True)\<close>: removes a regular file, is silent about a missing
  one, and refuses a directory.
\<close>

definition unlink_missing_ok :: "filesystem \<Rightarrow> path \<Rightarrow> py_error + filesystem" where
  "unlink_missing_ok fs p =
     (case lookup fs p of
        None \<Rightarrow> Inr fs
      | Some Dir \<Rightarrow> Inl IsADirectoryError
      | Some (File c) \<Rightarrow> Inr (AList.delete p fs))"

text \<open>
  \<^verbatim>\<open>Path(root).relative_to(src)\<close>: the part of \<open>root\<close> below \<open>src\<close>, or \<^verbatim>\<open>ValueError\<close>.
\<close>

definition relative_to :: "path \<Rightarrow> path \<Rightarrow> py_error + path" where
  "relative_to root src =
     (if prefix src root then Inr (drop (length src) root) else Inl ValueError)"

section \<open>Logger\<close>

text \<open>
  \<^verbatim>\<open>str.upper()\<close> on the characters of the model, which are bytes: the ASCII letters
  \<open>a\<close> to \<open>z\<close> are raised, every other byte is kept.
\<close>

definition upper_char :: "char \<Rightarrow> char" where
  "upper_char c =
     (case map_of (zip ''abcdefghijklmnopqrstuvwxyz'' ''ABCDEFGHIJKLMNOPQRSTUVWXYZ'') c of
        Some u \<Rightarrow> u
      | None \<Rightarrow> c)"

definition upper :: "string \<Rightarrow> string" where
  "upper s = map upper_char s"

definition log_levels :: "(string \<times> string) list" where
  "log_levels =
     [(''INFO'', ''INF''), (''DEBUG'', ''DBG''), (''ERROR'', ''ERR''),
      (''CLIENT'', ''CLT''), (''EXCEPTION'', ''EXE'')]"

text \<open>\<^verbatim>\<open>Logger.log_levels.get(key, 'LOG')\<close>.\<close>

definition level_prefix :: "string \<Rightarrow> string" where
  "level_prefix key = (case map_of log_levels key of Some code \<Rightarrow> code | None \<Rightarrow> ''LOG'')"

text \<open>The line \<^verbatim>\<open>Logger.log\<close> prints, given the time stamp it read.\<close>

definition log_line :: "string \<Rightarrow> string \<Rightarrow> string \<Rightarrow> string" where
  "log_line timestamp level message =
     ''['' @ timestamp @ ''] ['' @ level_prefix (upper level) @ ''] - '' @ message"

definition Logger_log :: "clock \<Rightarrow> string \<Rightarrow> string \<Rightarrow> world \<Rightarrow> world" where
  "Logger_log clk level message w =
     w\<lparr>stdout := stdout w @ [log_line (clk (length (stdout w))) level message]\<rparr>"

definition Logger_error :: "clock \<Rightarrow> string \<Rightarrow> world \<Rightarrow> world" where
  "Logger_error clk msg w = Logger_log clk ''ERROR'' msg w"

definition Logger_client :: "clock \<Rightarrow> string \<Rightarrow> world \<Rightarrow> world" where
  "Logger_client clk msg w = Logger_log clk ''CLIENT'' msg w"

definition Logger_debug :: "clock \<Rightarrow> string \<Rightarrow> world \<Rightarrow> world" where
  "Logger_debug clk msg w = Logger_log clk ''DEBUG'' msg w"

definition Logger_info :: "clock \<Rightarrow> string \<Rightarrow> world \<Rightarrow> world" where
  "Logger_info clk msg w = Logger_log clk ''INFO'' msg w"

definition Logger_exception :: "clock \<Rightarrow> string \<Rightarrow> world \<Rightarrow> world" where
  "Logger_exception clk msg w = Logger_log clk ''EXCEPTION'' msg w"

section \<open>Operations\<close>

text \<open>
  The two dataclasses derived from \<^verbatim>\<open>Operation\<close>, with their fields in order:
  \<^verbatim>\<open>src\<close> and \<^verbatim>\<open>dst\<close>, \<^verbatim>\<open>target\<close> and \<^verbatim>\<open>recursive\<close>. \<^verbatim>\<open>DeleteOperation\<close> declares
  \<^verbatim>\<open>recursive: bool = True\<close>; \<open>DeleteOperation_init\<close> is its constructor call, the
  flag given or left out.
\<close>

datatype operation =
    CopyOperation path path
  | DeleteOperation path bool

definition DeleteOperation_init :: "path \<Rightarrow> bool option \<Rightarrow> operation" where
  "DeleteOperation_init t r = DeleteOperation t (case r of None \<Rightarrow> True | Some b \<Rightarrow> b)"

definition quoted :: "string \<Rightarrow> string" where
  "quoted s = [CHR 0x27] @ s @ [CHR 0x27]"

text \<open>
  A \<^verbatim>\<open>for\<close> loop whose body may raise or, where the body is the directory walk, may
  need more fuel than it was given (\<open>None\<close>): the first body that does not return ends
  the loop.
\<close>

fun for_each :: "('a \<Rightarrow> world \<Rightarrow> outcome option) \<Rightarrow> 'a list \<Rightarrow> world \<Rightarrow> outcome option" where
  "for_each body [] w = Some (Returned w)"
| "for_each body (x # xs) w =
     (case body x w of
        None \<Rightarrow> None
      | Some (Raised e w') \<Rightarrow> Some (Raised e w')
      | Some (Returned w') \<Rightarrow> for_each body xs w')"

subsection \<open>CopyOperation.execute\<close>

text \<open>
  The inner loop, lines 140 to 146: every exception of \<^verbatim>\<open>shutil.copy2\<close> is caught and
  logged, so the loop itself cannot raise.
\<close>

fun copy_files :: "clock \<Rightarrow> path \<Rightarrow> path \<Rightarrow> string list \<Rightarrow> world \<Rightarrow> world" where
  "copy_files clk root dest_dir [] w = w"
| "copy_files clk root dest_dir (file # rest) w =
     (let src_file = root @ [file];
          dest_file = dest_dir @ [file]
      in copy_files clk root dest_dir rest
           (case shutil_copy2 (files w) src_file dest_file of
              Inr fs' \<Rightarrow> w\<lparr>files := fs'\<rparr>
            | Inl e \<Rightarrow>
                Logger_error clk
                  (''Failed to copy '' @ quoted (path_str src_file) @ '': '' @ error_str e) w))"

text \<open>
  The body of the outer loop for one triple \<^verbatim>\<open>(root, _, files)\<close> of the walk, lines
  136 to 146. The two calls before the inner loop are outside the \<^verbatim>\<open>try\<close>.
\<close>

definition copy_visit :: "clock \<Rightarrow> path \<Rightarrow> path \<Rightarrow> path \<Rightarrow> string list \<Rightarrow> world \<Rightarrow> outcome" where
  "copy_visit clk src dst root nondirs w =
     (case relative_to root src of
        Inl e \<Rightarrow> Raised e w
      | Inr rel_path \<Rightarrow>
          (let dest_dir = dst @ rel_path
           in case mkdir_parents (files w) dest_dir of
                Inl e \<Rightarrow> Raised e w
              | Inr fs' \<Rightarrow> Returned (copy_files clk root dest_dir nondirs (w\<lparr>files := fs'\<rparr>))))"

text \<open>
  \<^verbatim>\<open>for root, _, files in os.walk(self.src)\<close>, top down: a directory is scanned when
  the walk reaches it, in the file system as the loop body has left it by then; the
  body runs for it; then the walk descends into the directories the scan listed, in
  order. A path that cannot be scanned is skipped without any error. The walk reads a
  file system that the loop body writes, so its recursion is not structural: the first
  argument is fuel, and \<open>None\<close> says it ran out.
\<close>

fun copy_walk :: "nat \<Rightarrow> clock \<Rightarrow> path \<Rightarrow> path \<Rightarrow> path \<Rightarrow> world \<Rightarrow> outcome option" where
  "copy_walk 0 clk src dst root w = None"
| "copy_walk (Suc n) clk src dst root w =
     (case os_scandir (files w) root of
        None \<Rightarrow> Some (Returned w)
      | Some (dirs, nondirs) \<Rightarrow>
          (case copy_visit clk src dst root nondirs w of
             Raised e w' \<Rightarrow> Some (Raised e w')
           | Returned w' \<Rightarrow> for_each (\<lambda>d. copy_walk n clk src dst (root @ [d])) dirs w'))"

definition CopyOperation_execute :: "nat \<Rightarrow> clock \<Rightarrow> path \<Rightarrow> path \<Rightarrow> world \<Rightarrow> outcome option" where
  "CopyOperation_execute n clk src dst w =
     (if \<not> path_exists (files w) src
      then Some (Returned (Logger_error clk (''Source path not found: '' @ path_str src) w))
      else (case mkdir_parents (files w) dst of
              Inl e \<Rightarrow> Some (Raised e w)
            | Inr fs' \<Rightarrow>
                (case copy_walk n clk src dst src (w\<lparr>files := fs'\<rparr>) of
                   None \<Rightarrow> None
                 | Some (Raised e w') \<Rightarrow> Some (Raised e w')
                 | Some (Returned w') \<Rightarrow>
                     Some (Returned
                       (Logger_info clk ''Copy operation completed successfully.'' w')))))"

subsection \<open>DeleteOperation.execute\<close>

text \<open>
  The \<^verbatim>\<open>try\<close> block is a value of \<open>py_error + world\<close>; \<^verbatim>\<open>except Exception\<close> turns
  its left side into one logged error.
\<close>

definition delete_try :: "clock \<Rightarrow> path \<Rightarrow> bool \<Rightarrow> world \<Rightarrow> py_error + world" where
  "delete_try clk target recursive w =
     (if is_dir (files w) target \<and> recursive
      then (case shutil_rmtree (files w) target of
              Inl e \<Rightarrow> Inl e
            | Inr fs' \<Rightarrow>
                Inr (Logger_info clk (''Deleted directory: '' @ path_str target)
                       (w\<lparr>files := fs'\<rparr>)))
      else (case unlink_missing_ok (files w) target of
              Inl e \<Rightarrow> Inl e
            | Inr fs' \<Rightarrow>
                Inr (Logger_info clk (''Deleted file: '' @ path_str target)
                       (w\<lparr>files := fs'\<rparr>))))"

definition DeleteOperation_execute :: "clock \<Rightarrow> path \<Rightarrow> bool \<Rightarrow> world \<Rightarrow> outcome" where
  "DeleteOperation_execute clk target recursive w =
     (if \<not> path_exists (files w) target
      then Returned (Logger_info clk (''Target not found, skipping: '' @ path_str target) w)
      else (case delete_try clk target recursive w of
              Inr w' \<Rightarrow> Returned w'
            | Inl e \<Rightarrow>
                Returned
                  (Logger_error clk
                     (''Failed to delete '' @ quoted (path_str target) @ '': '' @ error_str e)
                     w)))"

text \<open>The call \<^verbatim>\<open>op.execute()\<close>, dispatched on the class of the operation.\<close>

fun Operation_execute :: "nat \<Rightarrow> clock \<Rightarrow> operation \<Rightarrow> world \<Rightarrow> outcome option" where
  "Operation_execute n clk (CopyOperation s d) w = CopyOperation_execute n clk s d w"
| "Operation_execute n clk (DeleteOperation t r) w = Some (DeleteOperation_execute clk t r w)"

section \<open>MigrationTask and DrakensangMigrator\<close>

record MigrationTask =
  name :: string
  operations :: "operation list"

definition MigrationTask_run :: "nat \<Rightarrow> clock \<Rightarrow> MigrationTask \<Rightarrow> world \<Rightarrow> outcome option" where
  "MigrationTask_run n clk task w =
     (case for_each (Operation_execute n clk) (operations task)
             (Logger_info clk (''Starting task: '' @ name task) w) of
        None \<Rightarrow> None
      | Some (Raised e w') \<Rightarrow> Some (Raised e w')
      | Some (Returned w') \<Rightarrow>
          Some (Returned (Logger_info clk (''Completed task: '' @ name task) w')))"

record DrakensangMigrator =
  source :: path
  destination :: path
  shortcut :: "path option"

text \<open>
  The list literal of lines 204 to 208, with \<^verbatim>\<open>None\<close> in the second place when no
  shortcut was given (a \<^verbatim>\<open>Path\<close> is always true in a condition).
\<close>

definition migration_tasks :: "DrakensangMigrator \<Rightarrow> MigrationTask option list" where
  "migration_tasks m =
     [Some \<lparr>name = ''Copy Game Files'',
            operations = [CopyOperation (source m) (destination m)]\<rparr>,
      (case shortcut m of
         Some s \<Rightarrow> Some \<lparr>name = ''Delete Shortcut'', operations = [DeleteOperation s False]\<rparr>
       | None \<Rightarrow> None),
      Some \<lparr>name = ''Remove Old Installation'',
            operations = [DeleteOperation (source m) True]\<rparr>]"

text \<open>
  Lines 197 to 202: the check of the source and the repair of the destination's
  parent. \<open>Inl\<close> is the early \<^verbatim>\<open>return\<close>, \<open>Inr\<close> goes on to the tasks.
\<close>

definition validate :: "clock \<Rightarrow> DrakensangMigrator \<Rightarrow> world \<Rightarrow> outcome + outcome" where
  "validate clk m w =
     (if \<not> path_exists (files w) (source m)
      then Inl (Returned
             (Logger_error clk (''Source directory not found: '' @ path_str (source m)) w))
      else if \<not> path_exists (files w) (parent (destination m))
      then (let w' = Logger_info clk
                       (''Destination parent missing, creating: ''
                          @ path_str (parent (destination m))) w
            in case mkdir_parents (files w') (parent (destination m)) of
                 Inl e \<Rightarrow> Inr (Raised e w')
               | Inr fs' \<Rightarrow> Inr (Returned (w'\<lparr>files := fs'\<rparr>)))
      else Inr (Returned w))"

definition perform_migration :: "nat \<Rightarrow> clock \<Rightarrow> DrakensangMigrator \<Rightarrow> world \<Rightarrow> outcome option" where
  "perform_migration n clk m w =
     (case validate clk m (Logger_info clk ''Migration process initiated.'' w) of
        Inl early \<Rightarrow> Some early
      | Inr (Raised e w') \<Rightarrow> Some (Raised e w')
      | Inr (Returned w') \<Rightarrow>
          (case for_each (MigrationTask_run n clk) (List.map_filter id (migration_tasks m)) w' of
             None \<Rightarrow> None
           | Some (Raised e w'') \<Rightarrow> Some (Raised e w'')
           | Some (Returned w'') \<Rightarrow>
               Some (Returned
                 (Logger_info clk ''All migration tasks completed successfully.'' w''))))"

section \<open>Notions used in the statements\<close>

text \<open>The world an outcome ends in, whether it returned or raised.\<close>

fun world_of :: "outcome \<Rightarrow> world" where
  "world_of (Returned w) = w"
| "world_of (Raised e w) = w"

text \<open>
  \<open>runs_through n clk ops w ws\<close>: started in the world \<open>w\<close>, the operations \<open>ops\<close> are
  executed one after the other, each in the world the one before it returned, every
  one of them returns, and \<open>ws\<close> lists the worlds they return, in order. The world
  after the last of them is \<open>last (w # ws)\<close>.
\<close>

fun runs_through :: "nat \<Rightarrow> clock \<Rightarrow> operation list \<Rightarrow> world \<Rightarrow> world list \<Rightarrow> bool" where
  "runs_through n clk [] w ws = (ws = [])"
| "runs_through n clk (op # ops) w [] = False"
| "runs_through n clk (op # ops) w (w1 # ws) =
     (Operation_execute n clk op w = Some (Returned w1) \<and> runs_through n clk ops w1 ws)"

text \<open>
  The conditions under which a copy reproduces a tree. \<open>wf_fs\<close>: the file system is
  a tree, every entry but the root lies in a directory. \<open>clear_way\<close>: no regular file
  stands at the destination or at one of its ancestors, so the destination can be made.
  \<open>compatible\<close>: whatever already exists below the destination at the relative path
  of a source entry is of the kind of that entry, a file for a file and a directory
  for a directory.
\<close>

fun same_kind :: "entry \<Rightarrow> entry \<Rightarrow> bool" where
  "same_kind (File c) (File c') = True"
| "same_kind Dir Dir = True"
| "same_kind e e' = False"

definition is_file :: "filesystem \<Rightarrow> path \<Rightarrow> bool" where
  "is_file fs p = (case lookup fs p of Some (File c) \<Rightarrow> True | _ \<Rightarrow> False)"

definition wf_fs :: "filesystem \<Rightarrow> bool" where
  "wf_fs fs = list_all (\<lambda>p. p = [] \<or> is_dir fs (parent p)) (map fst fs)"

definition clear_way :: "filesystem \<Rightarrow> path \<Rightarrow> bool" where
  "clear_way fs dst = list_all (\<lambda>a. \<not> is_file fs a) (prefixes dst)"

definition compatible :: "filesystem \<Rightarrow> path \<Rightarrow> path \<Rightarrow> bool" where
  "compatible fs src dst =
     list_all
       (\<lambda>p. prefix src p \<longrightarrow>
          (case (lookup fs p, lookup fs (dst @ drop (length src) p)) of
             (Some e, Some e') \<Rightarrow> same_kind e e'
           | _ \<Rightarrow> True))
       (map fst fs)"

text \<open>
  A sample installation for the closed instances below: the old installation
  \<^verbatim>\<open>/old\<close> with \<^verbatim>\<open>a.txt\<close> and \<^verbatim>\<open>sub/b.txt\<close>, a shortcut file, no \<^verbatim>\<open>/new\<close> yet, and a
  clock that stands still.
\<close>

definition noon :: clock where
  "noon k = ''12:00:00''"

definition demo_files :: filesystem where
  "demo_files =
     [([], Dir),
      ([''old''], Dir),
      ([''old'', ''a.txt''], File [1, 2]),
      ([''old'', ''sub''], Dir),
      ([''old'', ''sub'', ''b.txt''], File [3]),
      ([''menu.lnk''], File [9])]"

definition demo_migrator :: DrakensangMigrator where
  "demo_migrator =
     \<lparr>source = [''old''], destination = [''new''], shortcut = Some [''menu.lnk'']\<rparr>"

text \<open>The sample world before the migration, after its copy task, and at its end.\<close>

definition demo_world :: world where
  "demo_world = \<lparr>files = demo_files, stdout = []\<rparr>"

definition demo_copied :: world where
  "demo_copied =
     \<lparr>files = demo_files @
        [([''new''], Dir), ([''new'', ''a.txt''], File [1, 2]), ([''new'', ''sub''], Dir),
         ([''new'', ''sub'', ''b.txt''], File [3])],
      stdout =
        [''[12:00:00] [INF] - Migration process initiated.'',
         ''[12:00:00] [INF] - Starting task: Copy Game Files'',
         ''[12:00:00] [INF] - Copy operation completed successfully.'',
         ''[12:00:00] [INF] - Completed task: Copy Game Files'']\<rparr>"

definition demo_migrated :: world where
  "demo_migrated =
     \<lparr>files =
        [([], Dir), ([''new''], Dir), ([''new'', ''a.txt''], File [1, 2]),
         ([''new'', ''sub''], Dir), ([''new'', ''sub'', ''b.txt''], File [3])],
      stdout =
        [''[12:00:00] [INF] - Migration process initiated.'',
         ''[12:00:00] [INF] - Starting task: Copy Game Files'',
         ''[12:00:00] [INF] - Copy operation completed successfully.'',
         ''[12:00:00] [INF] - Completed task: Copy Game Files'',
         ''[12:00:00] [INF] - Starting task: Delete Shortcut'',
         ''[12:00:00] [INF] - Deleted file: /menu.lnk'',
         ''[12:00:00] [INF] - Completed task: Delete Shortcut'',
         ''[12:00:00] [INF] - Starting task: Remove Old Installation'',
         ''[12:00:00] [INF] - Deleted directory: /old'',
         ''[12:00:00] [INF] - Completed task: Remove Old Installation'',
         ''[12:00:00] [INF] - All migration tasks completed successfully.'']\<rparr>"

text \<open>The sample world with a regular file where the new installation should go.\<close>

definition demo_blocked :: world where
  "demo_blocked = \<lparr>files = demo_files @ [([''new''], File [7])], stdout = []\<rparr>"

section \<open>Properties of the logger\<close>

lemma upper_char_idem: "upper_char (upper_char c) = upper_char c"
  by (simp add: upper_char_def)

lemma upper_idem: "upper (upper s) = upper s"
  by (simp add: upper_def upper_char_idem)

text \<open>
  Claim C9. The severity is looked up after upper-casing, so \<^verbatim>\<open>log(s, m)\<close> and
  \<^verbatim>\<open>log(s.upper(), m)\<close> print the same line (at the same clock reading) and leave the
  same world.
\<close>

theorem Logger_log_case_insensitive:
  "Logger_log clk s m w = Logger_log clk (upper s) m w
   \<and> log_line t s m = log_line t (upper s) m"
  by (simp add: Logger_log_def log_line_def upper_idem)

section \<open>Basic facts about the model\<close>

text \<open>What the log calls print, and what the writing calls leave at each path.\<close>

lemma log_line_ERROR: "log_line t ''ERROR'' msg = ''['' @ t @ ''] [ERR] - '' @ msg"
  by (simp add: log_line_def level_prefix_def log_levels_def upper_def upper_char_def)

lemma log_line_INFO: "log_line t ''INFO'' msg = ''['' @ t @ ''] [INF] - '' @ msg"
  by (simp add: log_line_def level_prefix_def log_levels_def upper_def upper_char_def)

lemma files_Logger_log [simp]: "files (Logger_log clk l msg w) = files w"
  by (simp add: Logger_log_def)

lemma files_Logger_error [simp]: "files (Logger_error clk msg w) = files w"
  by (simp add: Logger_error_def)

lemma files_Logger_info [simp]: "files (Logger_info clk msg w) = files w"
  by (simp add: Logger_info_def)

lemma stdout_Logger_error:
  "stdout (Logger_error clk msg w) = stdout w @ [''['' @ clk (length (stdout w)) @ ''] [ERR] - '' @ msg]"
  by (simp add: Logger_error_def Logger_log_def log_line_ERROR)

lemma stdout_Logger_info:
  "stdout (Logger_info clk msg w) = stdout w @ [''['' @ clk (length (stdout w)) @ ''] [INF] - '' @ msg]"
  by (simp add: Logger_info_def Logger_log_def log_line_INFO)

lemma Logger_error_eq:
  "Logger_error clk msg w = w\<lparr>stdout := stdout w @ [''['' @ clk (length (stdout w)) @ ''] [ERR] - '' @ msg]\<rparr>"
  by (simp add: Logger_error_def Logger_log_def log_line_ERROR)

lemma Logger_info_eq:
  "Logger_info clk msg w = w\<lparr>stdout := stdout w @ [''['' @ clk (length (stdout w)) @ ''] [INF] - '' @ msg]\<rparr>"
  by (simp add: Logger_info_def Logger_log_def log_line_INFO)

lemma lookup_write_entry: "lookup (write_entry fs p e) q = (if q = p then Some e else lookup fs q)"
  by (simp add: lookup_def write_entry_def update_conv')

lemma lookup_filter: "lookup (filter (\<lambda>(q, e). P q) fs) p = (if P p then lookup fs p else None)"
  unfolding lookup_def by (induction fs) auto

lemma lookup_rmtree:
  "shutil_rmtree fs p = Inr fs' \<Longrightarrow> lookup fs' q = (if prefix p q then None else lookup fs q)"
  by (auto simp: shutil_rmtree_def lookup_filter split: option.splits entry.splits)

lemma lookup_delete: "lookup (AList.delete p fs) q = (if q = p then None else lookup fs q)"
  by (simp add: lookup_def delete_conv')

declare mkdir_parents.simps [simp del]

text \<open>The equations that evaluate the model on a closed input.\<close>

lemmas model_defs = lookup_def path_exists_def is_dir_def parent_def path_str_def
  child_names_def os_scandir_def write_entry_def os_mkdir_def mkdir_exist_ok_def
  shutil_copy2_def shutil_rmtree_def unlink_missing_ok_def relative_to_def quoted_def
  copy_visit_def CopyOperation_execute_def delete_try_def DeleteOperation_execute_def
  MigrationTask_run_def migration_tasks_def validate_def perform_migration_def
  Logger_info_eq Logger_error_eq mkdir_parents.simps noon_def demo_files_def
  demo_migrator_def demo_world_def demo_copied_def demo_migrated_def demo_blocked_def
  eval_nat_numeral

section \<open>Missing paths\<close>

text \<open>
  Claim C5. When the source path does not exist, \<^verbatim>\<open>CopyOperation.execute\<close> returns
  with the file system untouched and with exactly one more line on the output, an
  \<^verbatim>\<open>ERR\<close> line naming the path.
\<close>

theorem copy_missing_source:
  "\<not> path_exists (files w) s \<Longrightarrow>
   CopyOperation_execute n clk s d w =
     Some (Returned (w\<lparr>stdout := stdout w @
        [''['' @ clk (length (stdout w)) @ ''] [ERR] - Source path not found: '' @ path_str s]\<rparr>))"
  by (simp add: CopyOperation_execute_def Logger_error_eq)

theorem copy_missing_source_witness:
  "\<not> path_exists (files \<lparr>files = demo_files, stdout = []\<rparr>) [''gone'']
   \<and> CopyOperation_execute 0 noon [''gone''] [''new''] \<lparr>files = demo_files, stdout = []\<rparr> =
      Some (Returned \<lparr>files = demo_files,
         stdout = [''[12:00:00] [ERR] - Source path not found: /gone'']\<rparr>)"
  using copy_missing_source [of "\<lparr>files = demo_files, stdout = []\<rparr>" "[''gone'']" 0 noon
      "[''new'']"]
  by (simp add: path_exists_def lookup_def path_str_def noon_def demo_files_def)

text \<open>
  Claim C6. When the target does not exist, \<^verbatim>\<open>DeleteOperation.execute\<close> returns with
  the file system untouched and with exactly one more line on the output, an \<^verbatim>\<open>INF\<close>
  line (not an error) naming the path.
\<close>

theorem delete_missing_target:
  "\<not> path_exists (files w) t \<Longrightarrow>
   DeleteOperation_execute clk t r w =
     Returned (w\<lparr>stdout := stdout w @
        [''['' @ clk (length (stdout w)) @ ''] [INF] - Target not found, skipping: ''
           @ path_str t]\<rparr>)"
  by (simp add: DeleteOperation_execute_def Logger_info_eq)

theorem delete_missing_target_witness:
  "\<not> path_exists (files \<lparr>files = demo_files, stdout = []\<rparr>) [''gone'']
   \<and> DeleteOperation_execute noon [''gone''] True \<lparr>files = demo_files, stdout = []\<rparr> =
      Returned \<lparr>files = demo_files,
         stdout = [''[12:00:00] [INF] - Target not found, skipping: /gone'']\<rparr>"
  using delete_missing_target [of "\<lparr>files = demo_files, stdout = []\<rparr>" "[''gone'']" noon True]
  by (simp add: path_exists_def lookup_def path_str_def noon_def demo_files_def)

lemma perform_migration_source_absent:
  "\<not> path_exists (files w) (source m) \<Longrightarrow>
   perform_migration n clk m w =
     Some (Returned (w\<lparr>stdout := stdout w @
        [''['' @ clk (length (stdout w)) @ ''] [INF] - Migration process initiated.'',
         ''['' @ clk (Suc (length (stdout w))) @ ''] [ERR] - Source directory not found: ''
           @ path_str (source m)]\<rparr>))"
  by (simp add: perform_migration_def validate_def Logger_info_eq Logger_error_eq)

text \<open>
  Claim C4. When the source directory does not exist, \<^verbatim>\<open>perform_migration\<close> returns
  (it does not raise) with the file system untouched: the destination's parent is not
  created and no task runs. The output gains the initiation line and one \<^verbatim>\<open>ERR\<close> line.
\<close>

theorem migration_missing_source:
  "\<not> path_exists (files w) (source m) \<Longrightarrow>
   perform_migration n clk m w =
     Some (Returned (w\<lparr>stdout := stdout w @
        [''['' @ clk (length (stdout w)) @ ''] [INF] - Migration process initiated.'',
         ''['' @ clk (Suc (length (stdout w))) @ ''] [ERR] - Source directory not found: ''
           @ path_str (source m)]\<rparr>))"
  by (rule perform_migration_source_absent)

theorem migration_missing_source_witness:
  "\<not> path_exists (files \<lparr>files = [([], Dir)], stdout = []\<rparr>) (source demo_migrator)
   \<and> perform_migration 0 noon demo_migrator \<lparr>files = [([], Dir)], stdout = []\<rparr> =
      Some (Returned \<lparr>files = [([], Dir)],
         stdout = [''[12:00:00] [INF] - Migration process initiated.'',
                   ''[12:00:00] [ERR] - Source directory not found: /old'']\<rparr>)"
  using migration_missing_source [of "\<lparr>files = [([], Dir)], stdout = []\<rparr>" demo_migrator 0 noon]
  by (simp add: path_exists_def lookup_def path_str_def noon_def demo_migrator_def)

section \<open>CopyOperation.execute on a directory tree\<close>

text \<open>
  The proof follows the walk. First the facts about trees and about the scan; then
  what \<^verbatim>\<open>mkdir\<close> and the inner loop do when nothing is in their way; then the walk
  itself, by induction on the fuel, with the loop over the subdirectories as a lemma
  of its own.
\<close>

lemma same_kind_refl [simp]: "same_kind e e"
  by (cases e) auto

lemma same_kind_Dir [simp]: "same_kind Dir e \<longleftrightarrow> e = Dir"
  by (cases e) auto

lemma same_kind_File [simp]: "same_kind (File c) e \<longleftrightarrow> e \<noteq> Dir"
  by (cases e) auto

lemma lookup_in_keys: "lookup fs p \<noteq> None \<longleftrightarrow> p \<in> fst ` set fs"
  by (simp add: lookup_def map_of_eq_None_iff)

lemma wf_parent:
  assumes "wf_fs fs" "lookup fs p \<noteq> None" "p \<noteq> []"
  shows "is_dir fs (butlast p)"
proof -
  from assms(2) have "p \<in> set (map fst fs)" using lookup_in_keys [of fs p] by auto
  with assms(1) have "p = [] \<or> is_dir fs (parent p)"
    unfolding wf_fs_def list_all_iff by blast
  with assms(3) show ?thesis by (simp add: parent_def)
qed

lemma wf_ancestor:
  assumes "wf_fs fs"
  shows "lookup fs (p @ q) \<noteq> None \<Longrightarrow> q \<noteq> [] \<Longrightarrow> is_dir fs p"
proof (induction q rule: rev_induct)
  case Nil
  then show ?case by simp
next
  case (snoc x xs)
  have "is_dir fs (butlast (p @ xs @ [x]))"
    using wf_parent [OF assms, of "p @ xs @ [x]"] snoc.prems by simp
  then have d: "is_dir fs (p @ xs)" by (simp add: butlast_append)
  show ?case
  proof (cases "xs = []")
    case True
    with d show ?thesis by simp
  next
    case False
    with d snoc.IH show ?thesis by (simp add: is_dir_def)
  qed
qed

lemma wf_file_leaf:
  assumes "wf_fs fs" "lookup fs p = Some (File c)" "lookup fs (p @ q) \<noteq> None"
  shows "q = []"
proof (rule ccontr)
  assume "q \<noteq> []"
  then have "is_dir fs p" using wf_ancestor assms by blast
  with assms(2) show False by (simp add: is_dir_def)
qed

lemma set_child_names: "set (child_names fs root) = {n. lookup fs (root @ [n]) \<noteq> None}"
proof -
  have "set (child_names fs root) = last ` {q \<in> fst ` set fs. q \<noteq> [] \<and> butlast q = root}"
    by (auto simp: child_names_def)
  also have "\<dots> = {n. root @ [n] \<in> fst ` set fs}"
  proof (intro set_eqI iffI)
    fix n assume "n \<in> last ` {q \<in> fst ` set fs. q \<noteq> [] \<and> butlast q = root}"
    then obtain q where q: "q \<in> fst ` set fs" "q \<noteq> []" "butlast q = root" "n = last q" by blast
    then have "root @ [n] = q" using append_butlast_last_id [of q] by simp
    with q show "n \<in> {n. root @ [n] \<in> fst ` set fs}" by simp
  next
    fix n assume "n \<in> {n. root @ [n] \<in> fst ` set fs}"
    then have "root @ [n] \<in> {q \<in> fst ` set fs. q \<noteq> [] \<and> butlast q = root}" by simp
    then have "last (root @ [n]) \<in> last ` {q \<in> fst ` set fs. q \<noteq> [] \<and> butlast q = root}"
      by (rule imageI)
    then show "n \<in> last ` {q \<in> fst ` set fs. q \<noteq> [] \<and> butlast q = root}" by simp
  qed
  finally show ?thesis using lookup_in_keys [of fs] by auto
qed

lemma os_scandir_None: "os_scandir fs root = None \<longleftrightarrow> \<not> is_dir fs root"
  by (simp add: os_scandir_def)

lemma os_scandir_Some:
  assumes "os_scandir fs root = Some (dirs, nondirs)"
  shows "is_dir fs root"
    and "set dirs = {n. is_dir fs (root @ [n])}"
    and "set nondirs = {n. \<exists>c. lookup fs (root @ [n]) = Some (File c)}"
proof -
  from assms show d: "is_dir fs root" by (auto simp: os_scandir_def split: if_splits)
  from assms d have dirs: "dirs = filter (\<lambda>n. is_dir fs (root @ [n])) (child_names fs root)"
    and nondirs: "nondirs = filter (\<lambda>n. \<not> is_dir fs (root @ [n])) (child_names fs root)"
    by (auto simp: os_scandir_def)
  show "set dirs = {n. is_dir fs (root @ [n])}"
    unfolding dirs by (auto simp: set_child_names is_dir_def)
  show "set nondirs = {n. \<exists>c. lookup fs (root @ [n]) = Some (File c)}"
  proof (intro set_eqI iffI)
    fix n assume "n \<in> set nondirs"
    then have "lookup fs (root @ [n]) \<noteq> None" "lookup fs (root @ [n]) \<noteq> Some Dir"
      unfolding nondirs by (auto simp: set_child_names is_dir_def)
    then show "n \<in> {n. \<exists>c. lookup fs (root @ [n]) = Some (File c)}"
      by (cases "lookup fs (root @ [n])") (auto intro: entry.exhaust)
  next
    fix n assume "n \<in> {n. \<exists>c. lookup fs (root @ [n]) = Some (File c)}"
    then show "n \<in> set nondirs"
      unfolding nondirs by (auto simp: set_child_names is_dir_def)
  qed
qed

lemma mkdir_parents_ready:
  assumes "p = [] \<or> is_dir fs (butlast p)" "lookup fs [] = Some Dir" "\<not> is_file fs p"
  shows "\<exists>fs'. mkdir_parents fs p = Inr fs'
           \<and> (\<forall>q. lookup fs' q = (if q = p then Some Dir else lookup fs q))"
proof (cases "lookup fs p")
  case None
  with assms(2) have ne: "p \<noteq> []" by auto
  with assms(1) have "is_dir fs (butlast p)" by simp
  with None ne have "os_mkdir fs p = Inr (write_entry fs p Dir)"
    by (simp add: os_mkdir_def parent_def is_dir_def path_exists_def)
  then show ?thesis by (simp add: mkdir_parents.simps lookup_write_entry)
next
  case (Some e)
  with assms(3) have d: "lookup fs p = Some Dir"
    by (cases e) (auto simp: is_file_def)
  have "os_mkdir fs p = Inl FileExistsError"
  proof (cases "p = []")
    case True
    with d show ?thesis by (simp add: os_mkdir_def path_exists_def)
  next
    case False
    with assms(1) d show ?thesis
      by (simp add: os_mkdir_def parent_def is_dir_def path_exists_def)
  qed
  with d have "mkdir_parents fs p = Inr fs"
    by (simp add: mkdir_parents.simps is_dir_def)
  with d show ?thesis by auto
qed

lemma mkdir_parents_clear:
  assumes "wf_fs fs" "lookup fs [] = Some Dir"
  shows "(\<forall>a. prefix a p \<longrightarrow> \<not> is_file fs a) \<Longrightarrow>
         \<exists>fs'. mkdir_parents fs p = Inr fs'
           \<and> (\<forall>q. lookup fs' q = (if prefix q p \<and> lookup fs q = None then Some Dir else lookup fs q))
           \<and> (\<forall>q. prefix q p \<longrightarrow> is_dir fs' q)"
proof (induction p rule: rev_induct)
  case Nil
  have "os_mkdir fs [] = Inl FileExistsError"
    using assms(2) by (simp add: os_mkdir_def path_exists_def)
  then have "mkdir_parents fs [] = Inr fs"
    using assms(2) by (simp add: mkdir_parents.simps is_dir_def)
  with assms(2) show ?case by (auto simp: is_dir_def)
next
  case (snoc x xs)
  let ?p = "xs @ [x]"
  have nf: "\<not> is_file fs a" if "prefix a xs" for a
    using snoc.prems that by (simp add: prefix_order.trans)
  have np: "\<not> is_file fs ?p" using snoc.prems by simp
  obtain fs1 where fs1: "mkdir_parents fs xs = Inr fs1"
    and l1: "\<And>q. lookup fs1 q = (if prefix q xs \<and> lookup fs q = None then Some Dir else lookup fs q)"
    and d1: "\<And>q. prefix q xs \<Longrightarrow> is_dir fs1 q"
    using snoc.IH nf by blast
  have lp: "lookup fs1 ?p = lookup fs ?p" by (simp add: l1)
  have root1: "lookup fs1 [] = Some Dir" using d1 [of "[]"] by (simp add: is_dir_def)
  have par1: "is_dir fs1 (butlast ?p)" using d1 [of xs] by simp
  have np1: "\<not> is_file fs1 ?p" using np lp by (simp add: is_file_def)
  obtain fs2 where fs2: "mkdir_parents fs1 ?p = Inr fs2"
    and l2: "\<And>q. lookup fs2 q = (if q = ?p then Some Dir else lookup fs1 q)"
    using mkdir_parents_ready [of ?p fs1] par1 root1 np1 by blast
  have post: "\<And>q. lookup fs2 q = (if prefix q ?p \<and> lookup fs q = None then Some Dir else lookup fs q)"
  proof -
    fix q
    show "lookup fs2 q = (if prefix q ?p \<and> lookup fs q = None then Some Dir else lookup fs q)"
    proof (cases "q = ?p")
      case True
      have "lookup fs ?p = None \<or> lookup fs ?p = Some Dir"
        using np by (auto simp: is_file_def split: option.splits entry.splits)
      with True show ?thesis by (auto simp: l2)
    next
      case False
      then have "prefix q ?p \<longleftrightarrow> prefix q xs" by (auto simp: prefix_snoc)
      with False show ?thesis by (simp add: l2 l1)
    qed
  qed
  have dirs: "\<And>q. prefix q ?p \<Longrightarrow> is_dir fs2 q"
  proof -
    fix q assume "prefix q ?p"
    then consider "q = ?p" | "q \<noteq> ?p" "prefix q xs" by (auto simp: prefix_snoc)
    then show "is_dir fs2 q"
    proof cases
      case 1
      then show ?thesis by (simp add: is_dir_def l2)
    next
      case 2
      with d1 [of q] show ?thesis by (simp add: is_dir_def l2)
    qed
  qed
  show ?case
  proof (cases "os_mkdir fs ?p")
    case (Inr fs')
    then have par: "lookup fs xs = Some Dir" and ex: "lookup fs ?p = None"
      and fs': "fs' = write_entry fs ?p Dir"
      by (auto simp: os_mkdir_def parent_def path_exists_def split: option.splits entry.splits
          if_splits)
    have all: "is_dir fs q" if "prefix q xs" for q
    proof (cases "q = xs")
      case True
      with par show ?thesis by (simp add: is_dir_def)
    next
      case False
      with that obtain r where "xs = q @ r" "r \<noteq> []" by (auto simp: prefix_def)
      with par show ?thesis using wf_ancestor [OF assms(1), of q r] by simp
    qed
    have m: "mkdir_parents fs ?p = Inr fs'" using Inr by (simp add: mkdir_parents.simps)
    have "\<And>q. lookup fs' q = (if prefix q ?p \<and> lookup fs q = None then Some Dir else lookup fs q)"
      using all ex by (auto simp: fs' lookup_write_entry prefix_snoc is_dir_def)
    moreover have "\<And>q. prefix q ?p \<Longrightarrow> is_dir fs' q"
      using all by (auto simp: fs' lookup_write_entry prefix_snoc is_dir_def)
    ultimately show ?thesis using m by blast
  next
    case (Inl e)
    show ?thesis
    proof (cases "lookup fs xs")
      case None
      then have e: "os_mkdir fs ?p = Inl FileNotFoundError"
        by (simp add: os_mkdir_def parent_def)
      have "mkdir_parents fs ?p = mkdir_exist_ok fs1 ?p"
        using e fs1 by (simp add: mkdir_parents.simps [of fs ?p] parent_def)
      moreover have "mkdir_exist_ok fs1 ?p = Inr fs2"
      proof (cases "lookup fs1 ?p")
        case None
        then have "os_mkdir fs1 ?p = Inr (write_entry fs1 ?p Dir)"
          using par1 by (simp add: os_mkdir_def parent_def is_dir_def path_exists_def)
        then show ?thesis using fs2 by (simp add: mkdir_exist_ok_def mkdir_parents.simps [of fs1 ?p])
      next
        case (Some e1)
        then have d: "lookup fs1 ?p = Some Dir" using np1 by (cases e1) (auto simp: is_file_def)
        then have "os_mkdir fs1 ?p = Inl FileExistsError"
          using par1 by (simp add: os_mkdir_def parent_def is_dir_def path_exists_def)
        then show ?thesis using fs2 d
          by (simp add: mkdir_exist_ok_def mkdir_parents.simps [of fs1 ?p] is_dir_def)
      qed
      ultimately show ?thesis using post dirs by simp
    next
      case (Some ex)
      have "\<not> is_file fs xs" using nf by simp
      with Some have par: "lookup fs xs = Some Dir" by (cases ex) (auto simp: is_file_def)
      with Inl have e: "e = FileExistsError" and exi: "lookup fs ?p \<noteq> None"
        by (auto simp: os_mkdir_def parent_def path_exists_def split: if_splits)
      with np have d: "lookup fs ?p = Some Dir"
        by (auto simp: is_file_def split: option.splits entry.splits)
      have all: "is_dir fs q" if "prefix q ?p" for q
      proof (cases "q = ?p")
        case True
        with d show ?thesis by (simp add: is_dir_def)
      next
        case False
        with that obtain r where "?p = q @ r" "r \<noteq> []" by (auto simp: prefix_def)
        with d show ?thesis using wf_ancestor [OF assms(1), of q r] by simp
      qed
      have m: "mkdir_parents fs ?p = Inr fs"
        using Inl e d by (simp add: mkdir_parents.simps [of fs ?p] is_dir_def)
      have "\<And>q. lookup fs q = (if prefix q ?p \<and> lookup fs q = None then Some Dir else lookup fs q)"
        using all by (auto simp: is_dir_def)
      with m all show ?thesis by blast
    qed
  qed
qed

lemma copy_files_ok:
  assumes "A \<noteq> B" "is_dir (files w) B"
    and "\<forall>f \<in> set names. (\<exists>c. lookup (files w) (A @ [f]) = Some (File c))
           \<and> lookup (files w) (B @ [f]) \<noteq> Some Dir"
  shows "stdout (copy_files clk A B names w) = stdout w
       \<and> (\<forall>p. lookup (files (copy_files clk A B names w)) p =
            (if p \<noteq> [] \<and> butlast p = B \<and> last p \<in> set names
             then lookup (files w) (A @ [last p]) else lookup (files w) p))"
  using assms
proof (induction names arbitrary: w)
  case Nil
  show ?case by simp
next
  case (Cons f rest)
  obtain c where c: "lookup (files w) (A @ [f]) = Some (File c)" using Cons.prems(3) by auto
  have nd: "lookup (files w) (B @ [f]) \<noteq> Some Dir" using Cons.prems(3) by auto
  have ne: "A @ [f] \<noteq> B @ [f]" using Cons.prems(1) by simp
  have cp: "shutil_copy2 (files w) (A @ [f]) (B @ [f]) = Inr (write_entry (files w) (B @ [f]) (File c))"
  proof (cases "lookup (files w) (B @ [f])")
    case None
    with c ne Cons.prems(2) show ?thesis
      by (simp add: shutil_copy2_def is_dir_def parent_def)
  next
    case (Some e)
    with nd obtain c' where "lookup (files w) (B @ [f]) = Some (File c')" by (cases e) auto
    with c ne show ?thesis by (simp add: shutil_copy2_def is_dir_def)
  qed
  let ?w1 = "w\<lparr>files := write_entry (files w) (B @ [f]) (File c)\<rparr>"
  have step: "copy_files clk A B (f # rest) w = copy_files clk A B rest ?w1"
    by (simp add: cp Let_def)
  have dirB: "is_dir (files ?w1) B" using Cons.prems(2) by (simp add: is_dir_def lookup_write_entry)
  have pre: "\<forall>g \<in> set rest. (\<exists>c. lookup (files ?w1) (A @ [g]) = Some (File c))
           \<and> lookup (files ?w1) (B @ [g]) \<noteq> Some Dir"
  proof
    fix g assume g: "g \<in> set rest"
    have "lookup (files ?w1) (A @ [g]) = lookup (files w) (A @ [g])"
      using Cons.prems(1) by (simp add: lookup_write_entry)
    moreover have "lookup (files ?w1) (B @ [g]) \<noteq> Some Dir"
      using Cons.prems(3) g by (auto simp: lookup_write_entry)
    ultimately show "(\<exists>c. lookup (files ?w1) (A @ [g]) = Some (File c))
           \<and> lookup (files ?w1) (B @ [g]) \<noteq> Some Dir"
      using Cons.prems(3) g by auto
  qed
  note IH = Cons.IH [OF Cons.prems(1) dirB pre]
  have out: "stdout (copy_files clk A B (f # rest) w) = stdout w"
    using IH step by simp
  have look: "lookup (files (copy_files clk A B (f # rest) w)) p =
            (if p \<noteq> [] \<and> butlast p = B \<and> last p \<in> set (f # rest)
             then lookup (files w) (A @ [last p]) else lookup (files w) p)" for p
  proof -
    have eq: "lookup (files (copy_files clk A B (f # rest) w)) p =
       (if p \<noteq> [] \<and> butlast p = B \<and> last p \<in> set rest
             then lookup (files ?w1) (A @ [last p]) else lookup (files ?w1) p)"
      using IH step by simp
    have src_same: "lookup (files ?w1) (A @ [g]) = lookup (files w) (A @ [g])" for g
      using Cons.prems(1) by (auto simp: lookup_write_entry)
    show ?thesis
    proof (cases "p \<noteq> [] \<and> butlast p = B \<and> last p \<in> set rest")
      case True
      then show ?thesis using eq src_same by simp
    next
      case False
      show ?thesis
      proof (cases "p = B @ [f]")
        case True
        with False eq c show ?thesis by (simp add: lookup_write_entry)
      next
        case pf: False
        have "\<not> (p \<noteq> [] \<and> butlast p = B \<and> last p = f)"
          using pf append_butlast_last_id [of p] by auto
        with False eq pf show ?thesis by (auto simp: lookup_write_entry)
      qed
    qed
  qed
  from out look show ?case by blast
qed

lemma no_common_extension:
  assumes "\<not> prefix src dst" "\<not> prefix dst src" "prefix src p"
  shows "\<not> prefix (dst @ x) p"
proof
  assume "prefix (dst @ x) p"
  then have "prefix dst p" using prefix_order.trans prefixI by blast
  with assms(3) have "prefix src dst \<or> prefix dst src" by (rule prefix_same_cases)
  with assms(1,2) show False by blast
qed

lemma children_loop:
  fixes A B :: path
  assumes child: "\<And>d w. d \<in> D \<Longrightarrow> Inv w \<Longrightarrow>
            \<exists>w'. body d w = Some (Returned w') \<and> stdout w' = stdout w
              \<and> (\<forall>q e. lookup fs0 (A @ d # q) = Some e \<longrightarrow> lookup (files w') (B @ d # q) = Some e)
              \<and> (\<forall>p. \<not> prefix (B @ [d]) p \<longrightarrow> lookup (files w') p = lookup (files w) p)"
    and keep: "\<And>d w w'. d \<in> D \<Longrightarrow> Inv w \<Longrightarrow>
            (\<forall>q e. lookup fs0 (A @ d # q) = Some e \<longrightarrow> lookup (files w') (B @ d # q) = Some e) \<Longrightarrow>
            (\<forall>p. \<not> prefix (B @ [d]) p \<longrightarrow> lookup (files w') p = lookup (files w) p) \<Longrightarrow> Inv w'"
  shows "set ds \<subseteq> D \<Longrightarrow> Inv w \<Longrightarrow>
         \<exists>w'. for_each body ds w = Some (Returned w') \<and> stdout w' = stdout w
           \<and> (\<forall>d \<in> set ds. \<forall>q e. lookup fs0 (A @ d # q) = Some e \<longrightarrow>
                  lookup (files w') (B @ d # q) = Some e)
           \<and> (\<forall>p. (\<forall>d \<in> set ds. \<not> prefix (B @ [d]) p) \<longrightarrow>
                  lookup (files w') p = lookup (files w) p)"
proof (induction ds arbitrary: w)
  case Nil
  show ?case by simp
next
  case (Cons d ds)
  have dD: "d \<in> D" using Cons.prems(1) by simp
  obtain w1 where b: "body d w = Some (Returned w1)" and o1: "stdout w1 = stdout w"
    and post1: "\<forall>q e. lookup fs0 (A @ d # q) = Some e \<longrightarrow> lookup (files w1) (B @ d # q) = Some e"
    and frame1: "\<forall>p. \<not> prefix (B @ [d]) p \<longrightarrow> lookup (files w1) p = lookup (files w) p"
    using child [OF dD Cons.prems(2)] by blast
  have inv1: "Inv w1" using keep [OF dD Cons.prems(2) post1 frame1] .
  obtain w2 where r: "for_each body ds w1 = Some (Returned w2)" and o2: "stdout w2 = stdout w1"
    and post2: "\<forall>d' \<in> set ds. \<forall>q e. lookup fs0 (A @ d' # q) = Some e \<longrightarrow>
                  lookup (files w2) (B @ d' # q) = Some e"
    and frame2: "\<forall>p. (\<forall>d' \<in> set ds. \<not> prefix (B @ [d']) p) \<longrightarrow>
                  lookup (files w2) p = lookup (files w1) p"
    using Cons.IH [of w1] Cons.prems(1) inv1 by auto
  have run: "for_each body (d # ds) w = Some (Returned w2)" using b r by simp
  have post: "lookup (files w2) (B @ d' # q) = Some e"
    if "d' \<in> set (d # ds)" "lookup fs0 (A @ d' # q) = Some e" for d' q e
  proof (cases "d' \<in> set ds")
    case True
    with post2 that(2) show ?thesis by blast
  next
    case False
    with that(1) have eq: "d' = d" by simp
    have "\<forall>x \<in> set ds. \<not> prefix (B @ [x]) (B @ d # q)"
      using False eq by auto
    then have "lookup (files w2) (B @ d # q) = lookup (files w1) (B @ d # q)"
      using frame2 by blast
    with post1 that(2) eq show ?thesis by simp
  qed
  have frame: "lookup (files w2) p = lookup (files w) p"
    if "\<forall>d' \<in> set (d # ds). \<not> prefix (B @ [d']) p" for p
    using that frame1 frame2 by simp
  from run o1 o2 post frame show ?case by (intro exI [of _ w2]) auto
qed

lemma butlast_neq: "xs \<noteq> [] \<Longrightarrow> butlast xs \<noteq> xs"
proof
  assume ne: "xs \<noteq> []" and eq: "butlast xs = xs"
  have "length (butlast xs) = length xs - 1" by simp
  with eq have "length xs - 1 = length xs" by simp
  with ne show False by (cases xs) simp_all
qed

lemma apart:
  assumes "\<not> prefix src dst" "\<not> prefix dst src"
  shows "src @ x \<noteq> dst @ y"
proof
  assume "src @ x = dst @ y"
  then have "prefix src (dst @ y)" by (metis prefixI)
  moreover have "prefix dst (dst @ y)" by simp
  ultimately have "prefix src dst \<or> prefix dst src" by (rule prefix_same_cases)
  with assms show False by blast
qed

lemma copy_walk_ok:
  assumes wf: "wf_fs fs0" and d1: "\<not> prefix src dst" and d2: "\<not> prefix dst src"
  shows "\<lbrakk>\<forall>p. prefix src p \<longrightarrow> lookup (files w) p = lookup fs0 p;
          is_dir fs0 (src @ rel);
          \<forall>q. lookup fs0 (src @ rel @ q) \<noteq> None \<longrightarrow> length q < n;
          lookup (files w) [] = Some Dir;
          is_dir (files w) (butlast (dst @ rel));
          \<forall>q e. lookup fs0 (src @ rel @ q) = Some e \<longrightarrow>
             (case lookup (files w) (dst @ rel @ q) of None \<Rightarrow> True | Some e' \<Rightarrow> same_kind e e')\<rbrakk>
         \<Longrightarrow> \<exists>w'. copy_walk n clk src dst (src @ rel) w = Some (Returned w')
               \<and> stdout w' = stdout w
               \<and> (\<forall>q e. lookup fs0 (src @ rel @ q) = Some e \<longrightarrow>
                     lookup (files w') (dst @ rel @ q) = Some e)
               \<and> (\<forall>p. \<not> prefix (dst @ rel) p \<longrightarrow> lookup (files w') p = lookup (files w) p)"
proof (induction n arbitrary: rel w)
  case 0
  from "0.prems"(2) have "lookup fs0 (src @ rel @ []) \<noteq> None" by (simp add: is_dir_def)
  with "0.prems"(3) show ?case by blast
next
  case (Suc n)
  let ?A = "src @ rel" and ?B = "dst @ rel"
  note frame0 = Suc.prems(1) and rootdir = Suc.prems(2) and fuel = Suc.prems(3)
    and top = Suc.prems(4) and par = Suc.prems(5) and compat = Suc.prems(6)
  have dst_ne: "dst \<noteq> []" using d2 by auto
  have AB: "?A \<noteq> ?B" using d1 by auto
  have srcA: "prefix src (?A @ x)" for x by simp
  \<comment> \<open>the scan of the source directory\<close>
  have dirA: "is_dir (files w) ?A" using rootdir frame0 by (simp add: is_dir_def)
  then obtain dirs nondirs where scan: "os_scandir (files w) ?A = Some (dirs, nondirs)"
    by (cases "os_scandir (files w) ?A") (auto simp: os_scandir_None)
  have dirs: "set dirs = {d. is_dir fs0 (?A @ [d])}"
    using os_scandir_Some(2) [OF scan] frame0 by (simp add: is_dir_def)
  have nondirs: "set nondirs = {f. \<exists>c. lookup fs0 (?A @ [f]) = Some (File c)}"
    using os_scandir_Some(3) [OF scan] frame0 by simp
  \<comment> \<open>the destination directory is made\<close>
  have notfile: "\<not> is_file (files w) ?B"
    using compat [rule_format, of "[]" Dir] rootdir
    by (auto simp: is_dir_def is_file_def split: option.splits entry.splits)
  obtain fs1 where mk: "mkdir_parents (files w) ?B = Inr fs1"
    and l1: "\<And>q. lookup fs1 q = (if q = ?B then Some Dir else lookup (files w) q)"
    using mkdir_parents_ready [of ?B "files w"] par top notfile by blast
  let ?w1 = "w\<lparr>files := fs1\<rparr>"
  \<comment> \<open>the files of the source directory are copied\<close>
  have filespre: "\<forall>f \<in> set nondirs. (\<exists>c. lookup (files ?w1) (?A @ [f]) = Some (File c))
           \<and> lookup (files ?w1) (?B @ [f]) \<noteq> Some Dir"
  proof
    fix f assume f: "f \<in> set nondirs"
    then obtain c where c: "lookup fs0 (?A @ [f]) = Some (File c)" using nondirs by auto
    have "lookup (files w) (?A @ [f]) = Some (File c)" using c frame0 by simp
    then have s: "lookup fs1 (?A @ [f]) = Some (File c)"
      using apart [OF d1 d2, of "rel @ [f]" rel] by (simp add: l1)
    have "case lookup (files w) (?B @ [f]) of None \<Rightarrow> True | Some e' \<Rightarrow> same_kind (File c) e'"
      using compat [rule_format, of "[f]" "File c"] c by simp
    then have "lookup fs1 (?B @ [f]) \<noteq> Some Dir" by (auto simp: l1 split: option.splits)
    with s show "(\<exists>c. lookup (files ?w1) (?A @ [f]) = Some (File c))
           \<and> lookup (files ?w1) (?B @ [f]) \<noteq> Some Dir" by simp
  qed
  have dirB1: "is_dir (files ?w1) ?B" by (simp add: is_dir_def l1)
  let ?w2 = "copy_files clk ?A ?B nondirs ?w1"
  have out2: "stdout ?w2 = stdout w"
    using copy_files_ok [OF AB dirB1 filespre, of clk] by simp
  have l2: "lookup (files ?w2) p =
            (if p \<noteq> [] \<and> butlast p = ?B \<and> last p \<in> set nondirs
             then lookup fs1 (?A @ [last p]) else lookup fs1 p)" for p
    using copy_files_ok [OF AB dirB1 filespre, of clk] by simp
  have visit: "copy_visit clk src dst ?A nondirs w = Returned ?w2"
    by (simp add: copy_visit_def relative_to_def mk)
  \<comment> \<open>what the body has changed\<close>
  have bneq: "butlast ?B \<noteq> ?B"
    using dst_ne by (intro butlast_neq) simp
  have l2B: "lookup (files ?w2) ?B = Some Dir"
    using l2 [of ?B] bneq by (simp add: l1)
  have l2file: "lookup (files ?w2) (?B @ [f]) = Some (File c)"
    if "lookup fs0 (?A @ [f]) = Some (File c)" for f c
  proof -
    have "f \<in> set nondirs" using that nondirs by auto
    moreover have "lookup fs1 (?A @ [f]) = Some (File c)"
      using that frame0 apart [OF d1 d2, of "rel @ [f]" rel] by (simp add: l1)
    ultimately show ?thesis using l2 [of "?B @ [f]"] by (simp add: butlast_append)
  qed
  have l2other: "lookup (files ?w2) p = lookup (files w) p"
    if "p \<noteq> ?B" "\<not> (p \<noteq> [] \<and> butlast p = ?B \<and> last p \<in> set nondirs)" for p
  proof -
    have "lookup (files ?w2) p = lookup fs1 p" using that(2) l2 [of p] by auto
    with that(1) show ?thesis by (simp add: l1)
  qed
  have l2out: "lookup (files ?w2) p = lookup (files w) p" if "\<not> prefix ?B p" for p
  proof (rule l2other)
    show "p \<noteq> ?B" using that by auto
    show "\<not> (p \<noteq> [] \<and> butlast p = ?B \<and> last p \<in> set nondirs)"
    proof
      assume "p \<noteq> [] \<and> butlast p = ?B \<and> last p \<in> set nondirs"
      then have "p = ?B @ [last p]" using append_butlast_last_id [of p] by simp
      then have "prefix ?B p" using prefixI by blast
      with that show False by simp
    qed
  qed
  have l2child: "lookup (files ?w2) (?B @ d # q) = lookup (files w) (?B @ d # q)"
    if "d \<in> set dirs" for d q
  proof (rule l2other)
    show "?B @ d # q \<noteq> ?B" by simp
    show "\<not> (?B @ d # q \<noteq> [] \<and> butlast (?B @ d # q) = ?B \<and> last (?B @ d # q) \<in> set nondirs)"
    proof
      assume a: "?B @ d # q \<noteq> [] \<and> butlast (?B @ d # q) = ?B \<and> last (?B @ d # q) \<in> set nondirs"
      then have "butlast (d # q) = []" by (simp add: butlast_append)
      then have "q = []" by (cases q) (auto split: if_splits)
      with a have "d \<in> set nondirs" by simp
      with that dirs nondirs show False by (auto simp: is_dir_def)
    qed
  qed
  \<comment> \<open>the walk descends into the directories\<close>
  define Inv where "Inv = (\<lambda>wx :: world.
       (\<forall>p. prefix src p \<longrightarrow> lookup (files wx) p = lookup fs0 p)
     \<and> lookup (files wx) [] = Some Dir
     \<and> is_dir (files wx) ?B
     \<and> (\<forall>d \<in> set dirs. \<forall>q e. lookup fs0 (?A @ d # q) = Some e \<longrightarrow>
           (case lookup (files wx) (?B @ d # q) of None \<Rightarrow> True | Some e' \<Rightarrow> same_kind e e')))"
  have inv2: "Inv ?w2"
    unfolding Inv_def
  proof (intro conjI allI impI ballI)
    fix p assume "prefix src p"
    then have "\<not> prefix ?B p" using no_common_extension [OF d1 d2] by blast
    then show "lookup (files ?w2) p = lookup fs0 p"
      using l2out frame0 \<open>prefix src p\<close> by simp
  next
    have "\<not> prefix ?B []" using dst_ne by simp
    then show "lookup (files ?w2) [] = Some Dir" using l2out top by simp
  next
    show "is_dir (files ?w2) ?B" using l2B by (simp add: is_dir_def)
  next
    fix d q e assume "d \<in> set dirs" "lookup fs0 (?A @ d # q) = Some e"
    then show "case lookup (files ?w2) (?B @ d # q) of None \<Rightarrow> True | Some e' \<Rightarrow> same_kind e e'"
      using l2child compat [rule_format, of "d # q" e] by simp
  qed
  have child: "\<exists>w'. copy_walk n clk src dst (?A @ [d]) wx = Some (Returned w')
              \<and> stdout w' = stdout wx
              \<and> (\<forall>q e. lookup fs0 (?A @ d # q) = Some e \<longrightarrow> lookup (files w') (?B @ d # q) = Some e)
              \<and> (\<forall>p. \<not> prefix (?B @ [d]) p \<longrightarrow> lookup (files w') p = lookup (files wx) p)"
    if "d \<in> set dirs" "Inv wx" for d wx
  proof -
    have "\<exists>w'. copy_walk n clk src dst (src @ (rel @ [d])) wx = Some (Returned w')
               \<and> stdout w' = stdout wx
               \<and> (\<forall>q e. lookup fs0 (src @ (rel @ [d]) @ q) = Some e \<longrightarrow>
                     lookup (files w') (dst @ (rel @ [d]) @ q) = Some e)
               \<and> (\<forall>p. \<not> prefix (dst @ (rel @ [d])) p \<longrightarrow> lookup (files w') p = lookup (files wx) p)"
    proof (rule Suc.IH)
      show "\<forall>p. prefix src p \<longrightarrow> lookup (files wx) p = lookup fs0 p"
        using that(2) by (simp add: Inv_def)
      show "is_dir fs0 (src @ rel @ [d])" using that(1) dirs by simp
      show "\<forall>q. lookup fs0 (src @ (rel @ [d]) @ q) \<noteq> None \<longrightarrow> length q < n"
      proof (intro allI impI)
        fix q assume "lookup fs0 (src @ (rel @ [d]) @ q) \<noteq> None"
        then have "length (d # q) < Suc n" using fuel [rule_format, of "d # q"] by simp
        then show "length q < n" by simp
      qed
      show "lookup (files wx) [] = Some Dir" using that(2) by (simp add: Inv_def)
      show "is_dir (files wx) (butlast (dst @ rel @ [d]))"
        using that(2) by (simp add: Inv_def butlast_append)
      show "\<forall>q e. lookup fs0 (src @ (rel @ [d]) @ q) = Some e \<longrightarrow>
             (case lookup (files wx) (dst @ (rel @ [d]) @ q) of None \<Rightarrow> True
              | Some e' \<Rightarrow> same_kind e e')"
        using that by (simp add: Inv_def)
    qed
    then show ?thesis by simp
  qed
  have keep: "Inv w'"
    if "d \<in> set dirs" "Inv wx"
      "\<forall>q e. lookup fs0 (?A @ d # q) = Some e \<longrightarrow> lookup (files w') (?B @ d # q) = Some e"
      "\<forall>p. \<not> prefix (?B @ [d]) p \<longrightarrow> lookup (files w') p = lookup (files wx) p" for d wx w'
    unfolding Inv_def
  proof (intro conjI allI impI ballI)
    fix p assume "prefix src p"
    then have "\<not> prefix (dst @ (rel @ [d])) p" using no_common_extension [OF d1 d2] by blast
    then show "lookup (files w') p = lookup fs0 p"
      using that(2,4) \<open>prefix src p\<close> by (simp add: Inv_def)
  next
    have "\<not> prefix (?B @ [d]) []" by simp
    then show "lookup (files w') [] = Some Dir" using that(2,4) by (simp add: Inv_def)
  next
    have "\<not> prefix (?B @ [d]) ?B" by simp
    then have "lookup (files w') ?B = lookup (files wx) ?B" using that(4) by blast
    then show "is_dir (files w') ?B" using that(2) by (simp add: Inv_def is_dir_def)
  next
    fix d' q e assume d': "d' \<in> set dirs" and e: "lookup fs0 (?A @ d' # q) = Some e"
    show "case lookup (files w') (?B @ d' # q) of None \<Rightarrow> True | Some e' \<Rightarrow> same_kind e e'"
    proof (cases "d' = d")
      case True
      with e that(3) show ?thesis by simp
    next
      case False
      then have "\<not> prefix (?B @ [d]) (?B @ d' # q)" by simp
      then have "lookup (files w') (?B @ d' # q) = lookup (files wx) (?B @ d' # q)"
        using that(4) by blast
      with d' e that(2) show ?thesis by (simp add: Inv_def)
    qed
  qed
  have sub: "set dirs \<subseteq> set dirs" by simp
  have "\<exists>w'. for_each (\<lambda>d. copy_walk n clk src dst (?A @ [d])) dirs ?w2 = Some (Returned w')
           \<and> stdout w' = stdout ?w2
           \<and> (\<forall>d \<in> set dirs. \<forall>q e. lookup fs0 (?A @ d # q) = Some e \<longrightarrow>
                  lookup (files w') (?B @ d # q) = Some e)
           \<and> (\<forall>p. (\<forall>d \<in> set dirs. \<not> prefix (?B @ [d]) p) \<longrightarrow>
                  lookup (files w') p = lookup (files ?w2) p)"
    by (rule children_loop [where D = "set dirs" and Inv = Inv and ds = dirs and w = ?w2
        and body = "\<lambda>d. copy_walk n clk src dst (?A @ [d])" and A = ?A and B = ?B
        and ?fs0.0 = fs0, OF child keep sub inv2])
  then obtain w3 where loop: "for_each (\<lambda>d. copy_walk n clk src dst (?A @ [d])) dirs ?w2 = Some (Returned w3)"
    and out3: "stdout w3 = stdout ?w2"
    and post3: "\<forall>d \<in> set dirs. \<forall>q e. lookup fs0 (?A @ d # q) = Some e \<longrightarrow>
                  lookup (files w3) (?B @ d # q) = Some e"
    and frame3: "\<forall>p. (\<forall>d \<in> set dirs. \<not> prefix (?B @ [d]) p) \<longrightarrow>
                  lookup (files w3) p = lookup (files ?w2) p"
    by (elim exE conjE)
  have walk: "copy_walk (Suc n) clk src dst ?A w = Some (Returned w3)"
    using scan visit loop by simp
  have post: "lookup (files w3) (?B @ q) = Some e" if "lookup fs0 (?A @ q) = Some e" for q e
  proof (cases q)
    case Nil
    have "\<forall>d \<in> set dirs. \<not> prefix (?B @ [d]) ?B" by simp
    then have "lookup (files w3) ?B = lookup (files ?w2) ?B" using frame3 by blast
    moreover have "e = Dir" using that Nil rootdir by (simp add: is_dir_def)
    ultimately show ?thesis using Nil l2B by simp
  next
    case (Cons x q')
    have ex: "lookup fs0 (?A @ [x]) \<noteq> None"
    proof (cases "q' = []")
      case True
      with that Cons show ?thesis by simp
    next
      case False
      have "lookup fs0 ((?A @ [x]) @ q') \<noteq> None" using that Cons by simp
      then have "is_dir fs0 (?A @ [x])" using wf_ancestor [OF wf] False by blast
      then show ?thesis by (simp add: is_dir_def)
    qed
    then obtain ex where exv: "lookup fs0 (?A @ [x]) = Some ex" by auto
    show ?thesis
    proof (cases ex)
      case Dir
      with exv have "x \<in> set dirs" using dirs by (simp add: is_dir_def)
      with post3 that Cons show ?thesis by simp
    next
      case (File c)
      with exv have fx: "lookup fs0 (?A @ [x]) = Some (File c)" by simp
      have "lookup fs0 ((?A @ [x]) @ q') \<noteq> None" using that Cons by simp
      then have q': "q' = []" using wf_file_leaf [OF wf fx] by blast
      with that Cons fx have e: "e = File c" by simp
      have "x \<notin> set dirs" using fx dirs by (simp add: is_dir_def)
      then have "\<forall>d \<in> set dirs. \<not> prefix (?B @ [d]) (?B @ [x])" by auto
      then have "lookup (files w3) (?B @ [x]) = lookup (files ?w2) (?B @ [x])"
        using frame3 by blast
      with l2file [OF fx] e q' Cons show ?thesis by simp
    qed
  qed
  have frame: "lookup (files w3) p = lookup (files w) p" if "\<not> prefix ?B p" for p
  proof -
    have "\<forall>d \<in> set dirs. \<not> prefix (?B @ [d]) p"
      using that prefix_order.trans prefixI by (metis append.assoc)
    then have "lookup (files w3) p = lookup (files ?w2) p" using frame3 by blast
    with l2out [OF that] show ?thesis by simp
  qed
  from walk out3 out2 post frame show ?case by (intro exI [of _ w3]) auto
qed

lemma key_length_bound:
  assumes "lookup fs p \<noteq> None"
  shows "length p \<le> sum_list (map (length \<circ> fst) fs)"
proof -
  from assms obtain e where "(p, e) \<in> set fs"
    using lookup_in_keys [of fs p] by auto
  then have "(length \<circ> fst) (p, e) \<in> set (map (length \<circ> fst) fs)"
    unfolding set_map by (rule imageI)
  then have "(length \<circ> fst) (p, e) \<le> sum_list (map (length \<circ> fst) fs)"
    by (rule member_le_sum_list) simp
  then show ?thesis by simp
qed

lemma compatible_lookup:
  assumes "compatible fs src dst" "lookup fs (src @ q) = Some e"
  shows "case lookup fs (dst @ q) of None \<Rightarrow> True | Some e' \<Rightarrow> same_kind e e'"
proof -
  have "src @ q \<in> set (map fst fs)" using assms(2) lookup_in_keys [of fs "src @ q"] by auto
  with assms(1) have "prefix src (src @ q) \<longrightarrow>
          (case (lookup fs (src @ q), lookup fs (dst @ drop (length src) (src @ q))) of
             (Some e, Some e') \<Rightarrow> same_kind e e'
           | _ \<Rightarrow> True)"
    unfolding compatible_def list_all_iff by blast
  with assms(2) show ?thesis by (simp split: option.splits)
qed

lemma copy_execute_ok:
  assumes wf: "wf_fs (files w)" and dir: "is_dir (files w) src"
    and d1: "\<not> prefix src dst" and d2: "\<not> prefix dst src"
    and clear: "clear_way (files w) dst" and compat: "compatible (files w) src dst"
    and fuel: "sum_list (map (length \<circ> fst) (files w)) < n"
  shows "\<exists>w'. CopyOperation_execute n clk src dst w = Some (Returned w')
           \<and> (\<forall>rel e. lookup (files w) (src @ rel) = Some e \<longrightarrow>
                 lookup (files w') (dst @ rel) = Some e)
           \<and> (\<forall>p. prefix src p \<longrightarrow> lookup (files w') p = lookup (files w) p)
           \<and> stdout w' = stdout w @
                [''['' @ clk (length (stdout w)) @ ''] [INF] - Copy operation completed successfully.'']"
proof -
  let ?fs0 = "files w"
  have src_ne: "src \<noteq> []" using d1 by auto
  have ex: "path_exists ?fs0 src" using dir by (simp add: path_exists_def is_dir_def)
  have "lookup ?fs0 ([] @ src) \<noteq> None" using dir by (simp add: is_dir_def)
  then have "is_dir ?fs0 []" using wf_ancestor [OF wf] src_ne by blast
  then have root: "lookup ?fs0 [] = Some Dir" by (simp add: is_dir_def)
  have "\<forall>a. prefix a dst \<longrightarrow> \<not> is_file ?fs0 a"
    using clear by (simp add: clear_way_def list_all_iff)
  then obtain fs1 where mk: "mkdir_parents ?fs0 dst = Inr fs1"
    and l1: "\<And>q. lookup fs1 q =
               (if prefix q dst \<and> lookup ?fs0 q = None then Some Dir else lookup ?fs0 q)"
    and dirs1: "\<And>q. prefix q dst \<Longrightarrow> is_dir fs1 q"
    using mkdir_parents_clear [OF wf root, of dst] by blast
  let ?w1 = "w\<lparr>files := fs1\<rparr>"
  have "\<exists>w'. copy_walk n clk src dst (src @ []) ?w1 = Some (Returned w')
               \<and> stdout w' = stdout ?w1
               \<and> (\<forall>q e. lookup ?fs0 (src @ [] @ q) = Some e \<longrightarrow>
                     lookup (files w') (dst @ [] @ q) = Some e)
               \<and> (\<forall>p. \<not> prefix (dst @ []) p \<longrightarrow> lookup (files w') p = lookup (files ?w1) p)"
  proof (rule copy_walk_ok [OF wf d1 d2])
    show "\<forall>p. prefix src p \<longrightarrow> lookup (files ?w1) p = lookup ?fs0 p"
    proof (intro allI impI)
      fix p assume p: "prefix src p"
      have "\<not> prefix p dst" using p d1 prefix_order.trans by blast
      then show "lookup (files ?w1) p = lookup ?fs0 p" by (simp add: l1)
    qed
    show "is_dir ?fs0 (src @ [])" using dir by simp
    show "\<forall>q. lookup ?fs0 (src @ [] @ q) \<noteq> None \<longrightarrow> length q < n"
    proof (intro allI impI)
      fix q assume "lookup ?fs0 (src @ [] @ q) \<noteq> None"
      then have "lookup ?fs0 (src @ q) \<noteq> None" by simp
      then have "length (src @ q) \<le> sum_list (map (length \<circ> fst) ?fs0)"
        by (rule key_length_bound)
      with fuel show "length q < n" by simp
    qed
    show "lookup (files ?w1) [] = Some Dir" using dirs1 [of "[]"] by (simp add: is_dir_def)
    show "is_dir (files ?w1) (butlast (dst @ []))"
      using dirs1 [of "butlast dst"] by (simp add: prefixeq_butlast)
    show "\<forall>q e. lookup ?fs0 (src @ [] @ q) = Some e \<longrightarrow>
             (case lookup (files ?w1) (dst @ [] @ q) of None \<Rightarrow> True | Some e' \<Rightarrow> same_kind e e')"
    proof (intro allI impI)
      fix q e assume "lookup ?fs0 (src @ [] @ q) = Some e"
      then have e: "lookup ?fs0 (src @ q) = Some e" by simp
      show "case lookup (files ?w1) (dst @ [] @ q) of None \<Rightarrow> True | Some e' \<Rightarrow> same_kind e e'"
      proof (cases "q = []")
        case True
        with e dir have "e = Dir" by (simp add: is_dir_def)
        moreover have "lookup fs1 dst = Some Dir" using dirs1 [of dst] by (simp add: is_dir_def)
        ultimately show ?thesis using True by simp
      next
        case False
        then have "lookup fs1 (dst @ q) = lookup ?fs0 (dst @ q)" by (simp add: l1)
        with compatible_lookup [OF compat e] show ?thesis by simp
      qed
    qed
  qed
  then obtain w2 where walk: "copy_walk n clk src dst src ?w1 = Some (Returned w2)"
    and out2: "stdout w2 = stdout w"
    and post2: "\<forall>q e. lookup ?fs0 (src @ q) = Some e \<longrightarrow> lookup (files w2) (dst @ q) = Some e"
    and frame2: "\<forall>p. \<not> prefix dst p \<longrightarrow> lookup (files w2) p = lookup fs1 p"
    by auto
  let ?w' = "Logger_info clk ''Copy operation completed successfully.'' w2"
  have run: "CopyOperation_execute n clk src dst w = Some (Returned ?w')"
    using ex mk walk by (simp add: CopyOperation_execute_def)
  have keep: "lookup (files ?w') p = lookup ?fs0 p" if "prefix src p" for p
  proof -
    have "\<not> prefix (dst @ []) p" using that by (rule no_common_extension [OF d1 d2])
    then have "lookup (files w2) p = lookup fs1 p" using frame2 by simp
    moreover have "\<not> prefix p dst" using that d1 prefix_order.trans by blast
    ultimately show ?thesis by (simp add: l1)
  qed
  have "stdout ?w' = stdout w @
      [''['' @ clk (length (stdout w)) @ ''] [INF] - Copy operation completed successfully.'']"
    by (simp add: stdout_Logger_info out2)
  with run post2 keep show ?thesis by (intro exI [of _ ?w']) simp
qed

text \<open>
  Claim C1, as the code has it. Let the file system be a tree, the source an existing
  directory, source and destination not inside one another, no regular file at the
  destination or above it, and nothing of the wrong kind below the destination where
  a source entry is to go. Then, given enough fuel for the walk, \<^verbatim>\<open>execute\<close> returns,
  every entry of the source tree is found at the same relative path below the
  destination (a directory as a directory, a file with the same bytes), the source
  tree is unchanged, and the only line printed is the one that reports success.
\<close>

theorem copy_reproduces_tree:
  assumes "wf_fs (files w)" and "is_dir (files w) src"
    and "\<not> prefix src dst" and "\<not> prefix dst src"
    and "clear_way (files w) dst" and "compatible (files w) src dst"
  shows "\<exists>n0. \<forall>n \<ge> n0. \<exists>w'.
           CopyOperation_execute n clk src dst w = Some (Returned w')
           \<and> (\<forall>rel e. lookup (files w) (src @ rel) = Some e \<longrightarrow>
                 lookup (files w') (dst @ rel) = Some e)
           \<and> (\<forall>p. prefix src p \<longrightarrow> lookup (files w') p = lookup (files w) p)
           \<and> stdout w' = stdout w @
                [''['' @ clk (length (stdout w)) @ ''] [INF] - Copy operation completed successfully.'']"
proof (rule exI [of _ "Suc (sum_list (map (length \<circ> fst) (files w)))"], intro allI impI)
  fix n assume "Suc (sum_list (map (length \<circ> fst) (files w))) \<le> n"
  then have "sum_list (map (length \<circ> fst) (files w)) < n" by simp
  with assms show "\<exists>w'.
           CopyOperation_execute n clk src dst w = Some (Returned w')
           \<and> (\<forall>rel e. lookup (files w) (src @ rel) = Some e \<longrightarrow>
                 lookup (files w') (dst @ rel) = Some e)
           \<and> (\<forall>p. prefix src p \<longrightarrow> lookup (files w') p = lookup (files w) p)
           \<and> stdout w' = stdout w @
                [''['' @ clk (length (stdout w)) @ ''] [INF] - Copy operation completed successfully.'']"
    by (rule copy_execute_ok)
qed

theorem copy_reproduces_tree_witness:
  "wf_fs (files demo_world)
   \<and> is_dir (files demo_world) [''old'']
   \<and> \<not> prefix [''old''] [''new'']
   \<and> \<not> prefix [''new''] [''old'']
   \<and> clear_way (files demo_world) [''new'']
   \<and> compatible (files demo_world) [''old''] [''new'']
   \<and> (\<exists>n0. \<forall>n \<ge> n0. \<exists>w'.
         CopyOperation_execute n noon [''old''] [''new''] demo_world = Some (Returned w')
         \<and> (\<forall>rel e. lookup (files demo_world) ([''old''] @ rel) = Some e \<longrightarrow>
               lookup (files w') ([''new''] @ rel) = Some e)
         \<and> (\<forall>p. prefix [''old''] p \<longrightarrow> lookup (files w') p = lookup (files demo_world) p)
         \<and> stdout w' = stdout demo_world @
              [''['' @ noon (length (stdout demo_world))
                 @ ''] [INF] - Copy operation completed successfully.''])
   \<and> CopyOperation_execute 3 noon [''old''] [''new''] demo_world =
       Some (Returned
         \<lparr>files = demo_files @
            [([''new''], Dir), ([''new'', ''a.txt''], File [1, 2]), ([''new'', ''sub''], Dir),
             ([''new'', ''sub'', ''b.txt''], File [3])],
          stdout = [''[12:00:00] [INF] - Copy operation completed successfully.'']\<rparr>)"
proof -
  have h1: "wf_fs (files demo_world)"
    by (simp add: wf_fs_def demo_world_def demo_files_def is_dir_def lookup_def parent_def)
  have h2: "is_dir (files demo_world) [''old'']"
    by (simp add: demo_world_def demo_files_def is_dir_def lookup_def)
  have h3: "\<not> prefix [''old''] [''new'']" by simp
  have h4: "\<not> prefix [''new''] [''old'']" by simp
  have h5: "clear_way (files demo_world) [''new'']"
    by (simp add: clear_way_def is_file_def demo_world_def demo_files_def lookup_def)
  have h6: "compatible (files demo_world) [''old''] [''new'']"
    by (simp add: compatible_def demo_world_def demo_files_def lookup_def)
  have run: "CopyOperation_execute 3 noon [''old''] [''new''] demo_world =
       Some (Returned
         \<lparr>files = demo_files @
            [([''new''], Dir), ([''new'', ''a.txt''], File [1, 2]), ([''new'', ''sub''], Dir),
             ([''new'', ''sub'', ''b.txt''], File [3])],
          stdout = [''[12:00:00] [INF] - Copy operation completed successfully.'']\<rparr>)"
    by (simp add: model_defs)
  from copy_reproduces_tree [OF h1 h2 h3 h4 h5 h6, of noon] h1 h2 h3 h4 h5 h6 run
  show ?thesis by blast
qed

text \<open>
  The claim as the specification states it fails when the destination holds a
  directory where the source holds a file: \<^verbatim>\<open>shutil.copy2\<close> then copies into that
  directory, no error is logged, and \<^verbatim>\<open>/new/a.txt\<close> is a directory, not a copy of
  \<^verbatim>\<open>/old/a.txt\<close>.
\<close>

theorem copy_reproduces_tree_counterexample:
  "CopyOperation_execute 3 noon [''old''] [''new'']
      \<lparr>files = demo_files @ [([''new''], Dir), ([''new'', ''a.txt''], Dir)], stdout = []\<rparr> =
     Some (Returned
       \<lparr>files = demo_files @
          [([''new''], Dir), ([''new'', ''a.txt''], Dir),
           ([''new'', ''a.txt'', ''a.txt''], File [1, 2]), ([''new'', ''sub''], Dir),
           ([''new'', ''sub'', ''b.txt''], File [3])],
        stdout = [''[12:00:00] [INF] - Copy operation completed successfully.'']\<rparr>)
   \<and> lookup demo_files [''old'', ''a.txt''] = Some (File [1, 2])
   \<and> is_dir (demo_files @ [([''new''], Dir), ([''new'', ''a.txt''], Dir)]) [''old'']"
  by (simp add: model_defs)

text \<open>
  Why the amended claim keeps source and destination apart: with the destination inside
  the source, the walk reads files that the copy has already overwritten. Here
  \<^verbatim>\<open>/old/sub/a.txt\<close> held the byte 5 before the copy, and its copy
  \<^verbatim>\<open>/old/sub/sub/a.txt\<close> holds the bytes of \<^verbatim>\<open>/old/a.txt\<close>.
\<close>

lemma copy_into_own_subtree:
  "CopyOperation_execute 4 noon [''old''] [''old'', ''sub'']
      \<lparr>files = [([], Dir), ([''old''], Dir), ([''old'', ''a.txt''], File [1, 2]),
                ([''old'', ''sub''], Dir), ([''old'', ''sub'', ''a.txt''], File [5])],
         stdout = []\<rparr> =
     Some (Returned
       \<lparr>files = [([], Dir), ([''old''], Dir), ([''old'', ''a.txt''], File [1, 2]),
                 ([''old'', ''sub''], Dir), ([''old'', ''sub'', ''a.txt''], File [1, 2]),
                 ([''old'', ''sub'', ''sub''], Dir),
                 ([''old'', ''sub'', ''sub'', ''a.txt''], File [1, 2])],
          stdout = [''[12:00:00] [INF] - Copy operation completed successfully.'']\<rparr>)"
  by (simp add: model_defs)

section \<open>DeleteOperation.execute\<close>

text \<open>The three ways through \<^verbatim>\<open>execute\<close> for a target that exists.\<close>

lemma delete_recursive_dir:
  assumes "is_dir (files w) t"
  shows "DeleteOperation_execute clk t True w =
           Returned (Logger_info clk (''Deleted directory: '' @ path_str t)
             (w\<lparr>files := filter (\<lambda>(q, e). \<not> prefix t q) (files w)\<rparr>))"
  using assms
  by (simp add: DeleteOperation_execute_def delete_try_def shutil_rmtree_def is_dir_def
      path_exists_def)

lemma delete_regular_file:
  assumes "lookup (files w) t = Some (File c)"
  shows "DeleteOperation_execute clk t r w =
           Returned (Logger_info clk (''Deleted file: '' @ path_str t)
             (w\<lparr>files := AList.delete t (files w)\<rparr>))"
  using assms
  by (simp add: DeleteOperation_execute_def delete_try_def unlink_missing_ok_def is_dir_def
      path_exists_def)

lemma delete_dir_not_recursive:
  assumes "is_dir (files w) t"
  shows "DeleteOperation_execute clk t False w =
           Returned (Logger_error clk
             (''Failed to delete '' @ quoted (path_str t) @ '': Is a directory'') w)"
  using assms
  by (simp add: DeleteOperation_execute_def delete_try_def unlink_missing_ok_def is_dir_def
      path_exists_def)

lemma delete_never_raises: "\<exists>w'. DeleteOperation_execute clk t r w = Returned w'"
  by (simp add: DeleteOperation_execute_def split: sum.splits)

text \<open>
  Whatever the target and the flag, \<^verbatim>\<open>DeleteOperation.execute\<close> returns: every
  exception of the removal is caught and logged inside it.
\<close>

theorem delete_execute_returns: "\<exists>w'. DeleteOperation_execute clk t r w = Returned w'"
  by (rule delete_never_raises)

lemma delete_recursive_absent:
  assumes "DeleteOperation_execute clk t True w = Returned w'"
  shows "\<not> path_exists (files w') t"
proof (cases "lookup (files w) t")
  case None
  then have "\<not> path_exists (files w) t" by (simp add: path_exists_def)
  with assms show ?thesis by (auto simp: DeleteOperation_execute_def)
next
  case (Some e)
  show ?thesis
  proof (cases e)
    case (File c)
    with Some assms show ?thesis
      by (auto simp: delete_regular_file path_exists_def lookup_delete)
  next
    case Dir
    with Some have "is_dir (files w) t" by (simp add: is_dir_def)
    with assms show ?thesis
      by (auto simp: delete_recursive_dir path_exists_def lookup_filter)
  qed
qed

text \<open>
  Claim C3, as the code has it. On a directory with \<open>recursive\<close> set, the directory
  and every path below it are gone and nothing else changes. On a regular file, with
  either value of the flag, exactly that entry is gone. On a directory without
  \<open>recursive\<close> nothing is removed: \<^verbatim>\<open>unlink\<close> refuses a directory, and the
  exception is caught and logged.
\<close>

theorem delete_removes:
  "(is_dir (files w) d \<longrightarrow>
      (\<exists>w'. DeleteOperation_execute clk d True w = Returned w'
         \<and> (\<forall>p. lookup (files w') p = (if prefix d p then None else lookup (files w) p))))
   \<and> (lookup (files w) f = Some (File c) \<longrightarrow>
      (\<exists>w'. DeleteOperation_execute clk f r w = Returned w'
         \<and> (\<forall>p. lookup (files w') p = (if p = f then None else lookup (files w) p))))
   \<and> (is_dir (files w) d \<longrightarrow>
      (\<exists>w'. DeleteOperation_execute clk d False w = Returned w' \<and> files w' = files w))"
  by (auto simp: delete_recursive_dir delete_regular_file delete_dir_not_recursive
      lookup_filter lookup_delete)

theorem delete_removes_witness:
  "is_dir (files \<lparr>files = demo_files, stdout = []\<rparr>) [''old'']
   \<and> lookup (files \<lparr>files = demo_files, stdout = []\<rparr>) [''menu.lnk''] = Some (File [9])
   \<and> (\<exists>w'. DeleteOperation_execute noon [''old''] True \<lparr>files = demo_files, stdout = []\<rparr>
          = Returned w'
        \<and> (\<forall>p. lookup (files w') p =
              (if prefix [''old''] p then None
               else lookup (files \<lparr>files = demo_files, stdout = []\<rparr>) p)))
   \<and> (\<exists>w'. DeleteOperation_execute noon [''menu.lnk''] False
            \<lparr>files = demo_files, stdout = []\<rparr> = Returned w'
        \<and> (\<forall>p. lookup (files w') p =
              (if p = [''menu.lnk''] then None
               else lookup (files \<lparr>files = demo_files, stdout = []\<rparr>) p)))
   \<and> (\<exists>w'. DeleteOperation_execute noon [''old''] False \<lparr>files = demo_files, stdout = []\<rparr>
          = Returned w'
        \<and> files w' = files \<lparr>files = demo_files, stdout = []\<rparr>)"
proof -
  have d: "is_dir (files \<lparr>files = demo_files, stdout = []\<rparr>) [''old'']"
    by (simp add: is_dir_def lookup_def demo_files_def)
  have f: "lookup (files \<lparr>files = demo_files, stdout = []\<rparr>) [''menu.lnk''] = Some (File [9])"
    by (simp add: lookup_def demo_files_def)
  from delete_removes [of "\<lparr>files = demo_files, stdout = []\<rparr>" "[''old'']" noon
      "[''menu.lnk'']" "[9]" False] d f
  show ?thesis by blast
qed

text \<open>
  The claim as the specification states it fails on a directory with
  \<open>recursive = False\<close>: not even an empty directory is removed.
\<close>

theorem delete_removes_counterexample:
  "DeleteOperation_execute noon [''menu''] False
      \<lparr>files = [([], Dir), ([''menu''], Dir)], stdout = []\<rparr> =
   Returned \<lparr>files = [([], Dir), ([''menu''], Dir)],
      stdout = [''[12:00:00] [ERR] - Failed to delete '' @ [CHR 0x27] @ ''/menu'' @ [CHR 0x27]
                  @ '': Is a directory'']\<rparr>"
  by (simp add: model_defs)

text \<open>
  Claim C10. A \<^verbatim>\<open>DeleteOperation\<close> built from a target alone has
  \<open>recursive = True\<close>, and executing it on a directory removes the directory and
  every path below it, and nothing else.
\<close>

theorem delete_default_recursive:
  "DeleteOperation_init t None = DeleteOperation t True
   \<and> (is_dir (files w) t \<longrightarrow>
       (\<exists>w'. Operation_execute n clk (DeleteOperation_init t None) w = Some (Returned w')
          \<and> (\<forall>p. lookup (files w') p = (if prefix t p then None else lookup (files w) p))))"
  by (auto simp: DeleteOperation_init_def delete_recursive_dir lookup_filter)

theorem delete_default_recursive_witness:
  "is_dir (files \<lparr>files = demo_files, stdout = []\<rparr>) [''old'']
   \<and> DeleteOperation_init [''old''] None = DeleteOperation [''old''] True
   \<and> (\<exists>w'. Operation_execute 0 noon (DeleteOperation_init [''old''] None)
            \<lparr>files = demo_files, stdout = []\<rparr> = Some (Returned w')
        \<and> (\<forall>p. lookup (files w') p =
              (if prefix [''old''] p then None
               else lookup (files \<lparr>files = demo_files, stdout = []\<rparr>) p)))"
proof -
  have d: "is_dir (files \<lparr>files = demo_files, stdout = []\<rparr>) [''old'']"
    by (simp add: is_dir_def lookup_def demo_files_def)
  from delete_default_recursive [of "[''old'']" "\<lparr>files = demo_files, stdout = []\<rparr>" 0 noon] d
  show ?thesis by blast
qed

section \<open>The walk ends\<close>

text \<open>
  When source and destination do not lie inside one another, nothing the copy writes
  is at or below the source, so the walk sees the source tree as it was and ends after
  as many levels as the tree is deep. More fuel never changes a result.
\<close>

lemma os_mkdir_frame:
  "os_mkdir fs p = Inr fs' \<Longrightarrow> q \<noteq> p \<Longrightarrow> lookup fs' q = lookup fs q"
  by (auto simp: os_mkdir_def lookup_write_entry split: if_splits option.splits entry.splits)

lemma mkdir_exist_ok_frame:
  "mkdir_exist_ok fs p = Inr fs' \<Longrightarrow> q \<noteq> p \<Longrightarrow> lookup fs' q = lookup fs q"
  by (auto simp: mkdir_exist_ok_def os_mkdir_frame split: sum.splits py_error.splits if_splits)

lemma mkdir_parents_frame:
  "mkdir_parents fs p = Inr fs' \<Longrightarrow> \<not> prefix q p \<Longrightarrow> lookup fs' q = lookup fs q"
proof (induction fs p arbitrary: fs' rule: mkdir_parents.induct)
  case (1 fs p)
  have qp: "q \<noteq> p" using "1.prems"(2) by auto
  show ?case
  proof (cases "os_mkdir fs p")
    case (Inr fs1)
    with "1.prems"(1) have "fs' = fs1" by (simp add: mkdir_parents.simps [of fs p])
    with Inr qp show ?thesis by (simp add: os_mkdir_frame)
  next
    case (Inl e)
    show ?thesis
    proof (cases "e = FileNotFoundError")
      case False
      with Inl "1.prems"(1) have "fs' = fs"
        by (cases e) (auto simp: mkdir_parents.simps [of fs p] split: if_splits)
      then show ?thesis by simp
    next
      case True
      with Inl "1.prems"(1) have np: "parent p \<noteq> p"
        by (auto simp: mkdir_parents.simps [of fs p] split: if_splits)
      with Inl True "1.prems"(1) obtain fs1 where up: "mkdir_parents fs (parent p) = Inr fs1"
        and last: "mkdir_exist_ok fs1 p = Inr fs'"
        by (auto simp: mkdir_parents.simps [of fs p] split: sum.splits)
      have "\<not> prefix q (parent p)"
        using "1.prems"(2) prefixeq_butlast [of p] prefix_order.trans
        by (auto simp: parent_def)
      then have "lookup fs1 q = lookup fs q"
        using "1.IH" Inl True np up by blast
      moreover have "lookup fs' q = lookup fs1 q"
        using last qp by (rule mkdir_exist_ok_frame)
      ultimately show ?thesis by simp
    qed
  qed
qed

lemma shutil_copy2_frame:
  "shutil_copy2 fs s d = Inr fs' \<Longrightarrow> \<not> prefix d q \<Longrightarrow> lookup fs' q = lookup fs q"
  by (auto simp: shutil_copy2_def Let_def lookup_write_entry
      split: if_splits option.splits entry.splits)

lemma copy_files_frame:
  "\<not> prefix B q \<Longrightarrow> lookup (files (copy_files clk A B names w)) q = lookup (files w) q"
proof (induction names arbitrary: w)
  case Nil
  show ?case by simp
next
  case (Cons f rest)
  let ?w1 = "case shutil_copy2 (files w) (A @ [f]) (B @ [f]) of
              Inr fs' \<Rightarrow> w\<lparr>files := fs'\<rparr>
            | Inl e \<Rightarrow>
                Logger_error clk
                  (''Failed to copy '' @ quoted (path_str (A @ [f])) @ '': '' @ error_str e) w"
  have nq: "\<not> prefix (B @ [f]) q"
    using Cons.prems prefix_order.trans by (metis prefixI)
  have "lookup (files ?w1) q = lookup (files w) q"
    using nq by (auto simp: shutil_copy2_frame split: sum.splits)
  moreover have "lookup (files (copy_files clk A B rest ?w1)) q = lookup (files ?w1) q"
    using Cons.prems by (rule Cons.IH)
  ultimately show ?case by (simp add: Let_def)
qed

lemma copy_visit_frame:
  assumes "\<forall>x. \<not> prefix (dst @ x) q" "\<forall>x. \<not> prefix q (dst @ x)"
  shows "lookup (files (world_of (copy_visit clk src dst root names w))) q = lookup (files w) q"
proof (cases "relative_to root src")
  case (Inl e)
  then show ?thesis by (simp add: copy_visit_def)
next
  case (Inr rel)
  show ?thesis
  proof (cases "mkdir_parents (files w) (dst @ rel)")
    case (Inl e)
    with Inr show ?thesis by (simp add: copy_visit_def)
  next
    case mk: (Inr fs1)
    have "lookup fs1 q = lookup (files w) q"
      using mk assms(2) by (simp add: mkdir_parents_frame)
    moreover have "lookup (files (copy_files clk root (dst @ rel) names (w\<lparr>files := fs1\<rparr>))) q
        = lookup fs1 q"
      using assms(1) by (simp add: copy_files_frame)
    ultimately show ?thesis using Inr mk by (simp add: copy_visit_def)
  qed
qed

lemma for_each_inv:
  assumes "\<And>x w. x \<in> set xs \<Longrightarrow> I w \<Longrightarrow> \<exists>r. body x w = Some r \<and> I (world_of r)"
    and "I w"
  shows "\<exists>r. for_each body xs w = Some r \<and> I (world_of r)"
  using assms
proof (induction xs arbitrary: w)
  case Nil
  then show ?case by simp
next
  case (Cons x xs)
  obtain r1 where r1: "body x w = Some r1" and i1: "I (world_of r1)"
    using Cons.prems(1) [of x w] Cons.prems(2) by auto
  show ?case
  proof (cases r1)
    case (Raised e w1)
    with r1 i1 show ?thesis by simp
  next
    case (Returned w1)
    have "\<exists>r. for_each body xs w1 = Some r \<and> I (world_of r)"
    proof (rule Cons.IH)
      show "\<And>x w. x \<in> set xs \<Longrightarrow> I w \<Longrightarrow> \<exists>r. body x w = Some r \<and> I (world_of r)"
        using Cons.prems(1) by simp
      show "I w1" using i1 Returned by simp
    qed
    with r1 Returned show ?thesis by simp
  qed
qed

lemma src_untouched:
  assumes "\<not> prefix src dst" "\<not> prefix dst src" "prefix src q"
  shows "lookup (files (world_of (copy_visit clk src dst root names w))) q = lookup (files w) q"
proof (rule copy_visit_frame)
  show "\<forall>x. \<not> prefix (dst @ x) q"
    using no_common_extension [OF assms] by blast
  show "\<forall>x. \<not> prefix q (dst @ x)"
  proof (intro allI notI)
    fix x assume "prefix q (dst @ x)"
    with assms(3) have "prefix src (dst @ x)" by (rule prefix_order.trans)
    moreover have "prefix dst (dst @ x)" by simp
    ultimately have "prefix src dst \<or> prefix dst src" by (rule prefix_same_cases)
    with assms(1,2) show False by blast
  qed
qed

lemma copy_walk_terminates:
  assumes d1: "\<not> prefix src dst" and d2: "\<not> prefix dst src"
  shows "\<lbrakk>0 < n; prefix src root;
          \<forall>q. lookup fs0 (root @ q) \<noteq> None \<longrightarrow> length q < n;
          \<forall>p. prefix src p \<longrightarrow> lookup (files w) p = lookup fs0 p\<rbrakk>
         \<Longrightarrow> \<exists>r. copy_walk n clk src dst root w = Some r
               \<and> (\<forall>p. prefix src p \<longrightarrow> lookup (files (world_of r)) p = lookup fs0 p)"
proof (induction n arbitrary: root w)
  case 0
  then show ?case by simp
next
  case (Suc n)
  note under = Suc.prems(2) and fuel = Suc.prems(3) and frame = Suc.prems(4)
  show ?case
  proof (cases "os_scandir (files w) root")
    case None
    then show ?thesis using frame by simp
  next
    case (Some listing)
    obtain dirs nondirs where listing: "listing = (dirs, nondirs)" by (cases listing)
    have scan: "os_scandir (files w) root = Some (dirs, nondirs)" using Some listing by simp
    let ?v = "copy_visit clk src dst root nondirs w"
    have fv: "\<forall>p. prefix src p \<longrightarrow> lookup (files (world_of ?v)) p = lookup fs0 p"
      using src_untouched [OF d1 d2] frame by simp
    show ?thesis
    proof (cases ?v)
      case (Raised e w1)
      then have "copy_walk (Suc n) clk src dst root w = Some (Raised e w1)"
        using scan by simp
      with fv Raised show ?thesis by simp
    next
      case (Returned w1)
      have child: "\<exists>r. copy_walk n clk src dst (root @ [d]) wx = Some r
               \<and> (\<forall>p. prefix src p \<longrightarrow> lookup (files (world_of r)) p = lookup fs0 p)"
        if "d \<in> set dirs" and "\<forall>p. prefix src p \<longrightarrow> lookup (files wx) p = lookup fs0 p" for d wx
      proof (rule Suc.IH)
        have "is_dir (files w) (root @ [d])" using os_scandir_Some(2) [OF scan] that(1) by simp
        moreover have "prefix src (root @ [d])" using under by (simp add: prefix_prefix)
        ultimately have ex: "lookup fs0 (root @ [d]) \<noteq> None"
          using frame by (auto simp: is_dir_def)
        then have "length [d] < Suc n" using fuel by blast
        then show "0 < n" by simp
        show "prefix src (root @ [d])" using under by (simp add: prefix_prefix)
        show "\<forall>q. lookup fs0 ((root @ [d]) @ q) \<noteq> None \<longrightarrow> length q < n"
        proof (intro allI impI)
          fix q assume "lookup fs0 ((root @ [d]) @ q) \<noteq> None"
          then have "length (d # q) < Suc n" using fuel [rule_format, of "d # q"] by simp
          then show "length q < n" by simp
        qed
        show "\<forall>p. prefix src p \<longrightarrow> lookup (files wx) p = lookup fs0 p" using that(2) .
      qed
      have "\<exists>r. for_each (\<lambda>d. copy_walk n clk src dst (root @ [d])) dirs w1 = Some r
          \<and> (\<forall>p. prefix src p \<longrightarrow> lookup (files (world_of r)) p = lookup fs0 p)"
      proof (rule for_each_inv)
        show "\<forall>p. prefix src p \<longrightarrow> lookup (files w1) p = lookup fs0 p"
          using fv Returned by simp
      qed (rule child)
      moreover have "copy_walk (Suc n) clk src dst root w =
          for_each (\<lambda>d. copy_walk n clk src dst (root @ [d])) dirs w1"
        using scan Returned by simp
      ultimately show ?thesis by simp
    qed
  qed
qed

lemma for_each_mono:
  assumes "\<And>x w r. x \<in> set xs \<Longrightarrow> f x w = Some r \<Longrightarrow> g x w = Some r"
  shows "for_each f xs w = Some r \<Longrightarrow> for_each g xs w = Some r"
  using assms
proof (induction xs arbitrary: w)
  case Nil
  then show ?case by simp
next
  case (Cons x xs)
  from Cons.prems(1) obtain r1 where r1: "f x w = Some r1"
    by (cases "f x w") auto
  then have g1: "g x w = Some r1" using Cons.prems(2) by simp
  show ?case
  proof (cases r1)
    case (Raised e w1)
    with r1 g1 Cons.prems(1) show ?thesis by auto
  next
    case (Returned w1)
    with r1 Cons.prems(1) have "for_each f xs w1 = Some r" by simp
    then have "for_each g xs w1 = Some r"
      by (rule Cons.IH) (rule Cons.prems(2), simp_all)
    with g1 Returned show ?thesis by simp
  qed
qed

lemma copy_walk_fuel_mono:
  "copy_walk n clk src dst root w = Some r \<Longrightarrow> n \<le> m \<Longrightarrow> copy_walk m clk src dst root w = Some r"
proof (induction n arbitrary: m root w r)
  case 0
  then show ?case by simp
next
  case (Suc n)
  from Suc.prems(2) obtain m' where m: "m = Suc m'" and le: "n \<le> m'" by (cases m) auto
  show ?case
  proof (cases "os_scandir (files w) root")
    case None
    with Suc.prems(1) m show ?thesis by simp
  next
    case (Some listing)
    obtain dirs nondirs where listing: "listing = (dirs, nondirs)" by (cases listing)
    show ?thesis
    proof (cases "copy_visit clk src dst root nondirs w")
      case (Raised e w1)
      with Some listing Suc.prems(1) m show ?thesis by auto
    next
      case (Returned w1)
      with Some listing Suc.prems(1)
      have "for_each (\<lambda>d. copy_walk n clk src dst (root @ [d])) dirs w1 = Some r" by simp
      then have "for_each (\<lambda>d. copy_walk m' clk src dst (root @ [d])) dirs w1 = Some r"
        by (rule for_each_mono [rotated]) (rule Suc.IH [OF _ le])
      with Some listing Returned m show ?thesis by simp
    qed
  qed
qed

lemma copy_execute_fuel_mono:
  assumes "CopyOperation_execute n clk s d w = Some r" "n \<le> m"
  shows "CopyOperation_execute m clk s d w = Some r"
proof (cases "path_exists (files w) s")
  case False
  with assms show ?thesis by (simp add: CopyOperation_execute_def)
next
  case True
  show ?thesis
  proof (cases "mkdir_parents (files w) d")
    case (Inl e)
    with True assms show ?thesis by (simp add: CopyOperation_execute_def)
  next
    case (Inr fs1)
    with True assms(1) obtain r1 where r1: "copy_walk n clk s d s (w\<lparr>files := fs1\<rparr>) = Some r1"
      by (auto simp: CopyOperation_execute_def split: option.splits)
    then have "copy_walk m clk s d s (w\<lparr>files := fs1\<rparr>) = Some r1"
      using assms(2) by (rule copy_walk_fuel_mono)
    with r1 True Inr assms(1) show ?thesis by (simp add: CopyOperation_execute_def)
  qed
qed

lemma copy_execute_terminates:
  assumes "\<not> prefix s d" "\<not> prefix d s"
  shows "\<exists>n0 r. \<forall>n \<ge> n0. CopyOperation_execute n clk s d w = Some r"
proof (cases "path_exists (files w) s")
  case False
  then show ?thesis by (auto simp: CopyOperation_execute_def)
next
  case True
  show ?thesis
  proof (cases "mkdir_parents (files w) d")
    case (Inl e)
    with True show ?thesis by (auto simp: CopyOperation_execute_def)
  next
    case (Inr fs1)
    let ?n0 = "Suc (sum_list (map (length \<circ> fst) fs1))"
    have "\<exists>r. copy_walk ?n0 clk s d s (w\<lparr>files := fs1\<rparr>) = Some r
        \<and> (\<forall>p. prefix s p \<longrightarrow> lookup (files (world_of r)) p = lookup fs1 p)"
    proof (rule copy_walk_terminates [OF assms])
      show "0 < ?n0" by simp
      show "prefix s s" by simp
      show "\<forall>q. lookup fs1 (s @ q) \<noteq> None \<longrightarrow> length q < ?n0"
      proof (intro allI impI)
        fix q assume "lookup fs1 (s @ q) \<noteq> None"
        then have "length (s @ q) \<le> sum_list (map (length \<circ> fst) fs1)"
          by (rule key_length_bound)
        then show "length q < ?n0" by simp
      qed
      show "\<forall>p. prefix s p \<longrightarrow> lookup (files (w\<lparr>files := fs1\<rparr>)) p = lookup fs1 p" by simp
    qed
    then obtain r1 where r1: "copy_walk ?n0 clk s d s (w\<lparr>files := fs1\<rparr>) = Some r1" by blast
    then obtain r where r: "CopyOperation_execute ?n0 clk s d w = Some r"
      using True Inr by (cases r1) (auto simp: CopyOperation_execute_def)
    then have "\<forall>n \<ge> ?n0. CopyOperation_execute n clk s d w = Some r"
      using copy_execute_fuel_mono by blast
    then show ?thesis by blast
  qed
qed

lemma operation_fuel:
  assumes "\<forall>s d. op = CopyOperation s d \<longrightarrow> \<not> prefix s d \<and> \<not> prefix d s"
  shows "\<exists>n0 r. \<forall>n \<ge> n0. Operation_execute n clk op w = Some r"
proof (cases op)
  case (CopyOperation s d)
  with assms show ?thesis using copy_execute_terminates [of s d clk w] by simp
next
  case (DeleteOperation t b)
  then show ?thesis by simp
qed

lemma for_each_fuel:
  fixes body :: "nat \<Rightarrow> 'a \<Rightarrow> world \<Rightarrow> outcome option"
  assumes "\<And>x w. x \<in> set xs \<Longrightarrow> \<exists>n0 r. \<forall>n \<ge> n0. body n x w = Some r"
  shows "\<exists>n0 r. \<forall>n \<ge> n0. for_each (body n) xs w = Some r"
  using assms
proof (induction xs arbitrary: w)
  case Nil
  show ?case by simp
next
  case (Cons x xs)
  obtain n1 r1 where r1: "\<forall>n \<ge> n1. body n x w = Some r1"
    using Cons.prems [of x w] by auto
  show ?case
  proof (cases r1)
    case (Raised e w1)
    with r1 have "\<forall>n \<ge> n1. for_each (body n) (x # xs) w = Some (Raised e w1)" by simp
    then show ?thesis by blast
  next
    case (Returned w1)
    have "\<exists>n0 r. \<forall>n \<ge> n0. for_each (body n) xs w1 = Some r"
      by (rule Cons.IH) (rule Cons.prems, simp)
    then obtain n2 r2 where r2: "\<forall>n \<ge> n2. for_each (body n) xs w1 = Some r2" by blast
    have "\<forall>n \<ge> max n1 n2. for_each (body n) (x # xs) w = Some r2"
    proof (intro allI impI)
      fix n assume n: "max n1 n2 \<le> n"
      then have "n1 \<le> n" "n2 \<le> n" by simp_all
      then have "body n x w = Some (Returned w1)" "for_each (body n) xs w1 = Some r2"
        using r1 r2 Returned by blast+
      then show "for_each (body n) (x # xs) w = Some r2" by simp
    qed
    then show ?thesis by blast
  qed
qed

lemma task_run_fuel:
  assumes "\<forall>op \<in> set (operations task). \<forall>s d. op = CopyOperation s d \<longrightarrow>
             \<not> prefix s d \<and> \<not> prefix d s"
  shows "\<exists>n0 r. \<forall>n \<ge> n0. MigrationTask_run n clk task w = Some r"
proof -
  let ?w0 = "Logger_info clk (''Starting task: '' @ name task) w"
  have "\<exists>n0 r. \<forall>n \<ge> n0. for_each (\<lambda>op. Operation_execute n clk op) (operations task) ?w0 = Some r"
  proof (rule for_each_fuel)
    fix op wa assume "op \<in> set (operations task)"
    with assms have "\<forall>s d. op = CopyOperation s d \<longrightarrow> \<not> prefix s d \<and> \<not> prefix d s" by blast
    then show "\<exists>n0 r. \<forall>n \<ge> n0. Operation_execute n clk op wa = Some r"
      by (rule operation_fuel)
  qed
  then obtain n0 r1 where r1:
    "\<forall>n \<ge> n0. for_each (Operation_execute n clk) (operations task) ?w0 = Some r1"
    by auto
  show ?thesis
  proof (cases r1)
    case (Raised e w1)
    with r1 have "\<forall>n \<ge> n0. MigrationTask_run n clk task w = Some (Raised e w1)"
      by (simp add: MigrationTask_run_def)
    then show ?thesis by blast
  next
    case (Returned w1)
    with r1 have "\<forall>n \<ge> n0. MigrationTask_run n clk task w =
        Some (Returned (Logger_info clk (''Completed task: '' @ name task) w1))"
      by (simp add: MigrationTask_run_def)
    then show ?thesis by blast
  qed
qed

section \<open>Tasks\<close>

text \<open>
  A loop over operations or tasks is a \<open>for_each\<close>; the output only grows along it,
  and it raises only where one of its bodies does.
\<close>

lemma for_each_append:
  "for_each body (xs @ ys) w =
     (case for_each body xs w of
        None \<Rightarrow> None
      | Some (Raised e w') \<Rightarrow> Some (Raised e w')
      | Some (Returned w') \<Rightarrow> for_each body ys w')"
  by (induction xs arbitrary: w) (auto split: option.splits outcome.splits)

lemma run_delete_task:
  assumes "MigrationTask_run n clk \<lparr>name = nm, operations = [DeleteOperation t r]\<rparr> w = Some res"
  shows "\<exists>wa wb. DeleteOperation_execute clk t r wa = Returned wb
     \<and> res = Returned (Logger_info clk (''Completed task: '' @ nm) wb)"
proof -
  obtain wb where wb: "DeleteOperation_execute clk t r
      (Logger_info clk (''Starting task: '' @ nm) w) = Returned wb"
    using delete_never_raises by blast
  with assms have "res = Returned (Logger_info clk (''Completed task: '' @ nm) wb)"
    by (simp add: MigrationTask_run_def)
  with wb show ?thesis by blast
qed

lemma run_delete_task_returns:
  "\<exists>w'. MigrationTask_run n clk \<lparr>name = nm, operations = [DeleteOperation t r]\<rparr> w
     = Some (Returned w')"
  using delete_never_raises [of clk t r "Logger_info clk (''Starting task: '' @ nm) w"]
  by (auto simp: MigrationTask_run_def)

lemma prefix_stdout_Logger_info: "prefix (stdout w) (stdout (Logger_info clk msg w))"
  by (simp add: stdout_Logger_info)

lemma prefix_stdout_Logger_error: "prefix (stdout w) (stdout (Logger_error clk msg w))"
  by (simp add: stdout_Logger_error)

lemma prefix_stdout_copy_files:
  "prefix (stdout w) (stdout (copy_files clk root dest_dir names w))"
proof (induction names arbitrary: w)
  case Nil
  show ?case by simp
next
  case (Cons f rest)
  let ?w = "case shutil_copy2 (files w) (root @ [f]) (dest_dir @ [f]) of
              Inr fs' \<Rightarrow> w\<lparr>files := fs'\<rparr>
            | Inl e \<Rightarrow>
                Logger_error clk
                  (''Failed to copy '' @ quoted (path_str (root @ [f])) @ '': '' @ error_str e) w"
  have "prefix (stdout w) (stdout ?w)"
    by (simp add: prefix_stdout_Logger_error split: sum.splits)
  moreover have "prefix (stdout ?w) (stdout (copy_files clk root dest_dir rest ?w))"
    by (rule Cons.IH)
  ultimately show ?case by (auto simp: Let_def intro: prefix_order.trans)
qed

lemma prefix_stdout_copy_visit:
  "prefix (stdout w) (stdout (world_of (copy_visit clk s d root names w)))"
  using prefix_stdout_copy_files [of "w\<lparr>files := fs'\<rparr>" for fs']
  by (auto simp: copy_visit_def Let_def split: sum.splits)

lemma prefix_stdout_for_each:
  assumes "\<And>x w r. x \<in> set xs \<Longrightarrow> body x w = Some r \<Longrightarrow> prefix (stdout w) (stdout (world_of r))"
    and "for_each body xs w = Some r"
  shows "prefix (stdout w) (stdout (world_of r))"
  using assms
proof (induction xs arbitrary: w)
  case Nil
  then show ?case by auto
next
  case (Cons x xs)
  show ?case
  proof (cases "body x w")
    case None
    with Cons.prems(2) show ?thesis by simp
  next
    case (Some r1)
    then have p1: "prefix (stdout w) (stdout (world_of r1))"
      using Cons.prems(1) [of x w r1] by simp
    show ?thesis
    proof (cases r1)
      case (Raised e w')
      with Some Cons.prems(2) p1 show ?thesis by auto
    next
      case (Returned w')
      with Some Cons.prems(2) have "for_each body xs w' = Some r" by simp
      then have "prefix (stdout w') (stdout (world_of r))"
        by (rule Cons.IH [rotated]) (rule Cons.prems(1), simp_all)
      with p1 Returned show ?thesis by (auto intro: prefix_order.trans)
    qed
  qed
qed

lemma prefix_stdout_copy_walk:
  "copy_walk n clk s d root w = Some r \<Longrightarrow> prefix (stdout w) (stdout (world_of r))"
proof (induction n arbitrary: root w r)
  case 0
  then show ?case by simp
next
  case (Suc n)
  show ?case
  proof (cases "os_scandir (files w) root")
    case None
    with Suc.prems show ?thesis by auto
  next
    case (Some listing)
    obtain dirs nondirs where listing: "listing = (dirs, nondirs)" by (cases listing)
    have pv: "prefix (stdout w) (stdout (world_of (copy_visit clk s d root nondirs w)))"
      by (rule prefix_stdout_copy_visit)
    show ?thesis
    proof (cases "copy_visit clk s d root nondirs w")
      case (Raised e w')
      with Some listing Suc.prems pv show ?thesis by auto
    next
      case (Returned w')
      with Some listing Suc.prems
      have "for_each (\<lambda>x. copy_walk n clk s d (root @ [x])) dirs w' = Some r" by simp
      then have "prefix (stdout w') (stdout (world_of r))"
        using Suc.IH by (rule prefix_stdout_for_each [rotated])
      with pv Returned show ?thesis by (auto intro: prefix_order.trans)
    qed
  qed
qed

lemma prefix_stdout_copy_execute:
  assumes "CopyOperation_execute n clk s d w = Some r"
  shows "prefix (stdout w) (stdout (world_of r))"
proof (cases "path_exists (files w) s")
  case False
  with assms show ?thesis
    by (auto simp: CopyOperation_execute_def prefix_stdout_Logger_error)
next
  case True
  show ?thesis
  proof (cases "mkdir_parents (files w) d")
    case (Inl e)
    with True assms show ?thesis by (auto simp: CopyOperation_execute_def)
  next
    case (Inr fs')
    with True assms obtain r1 where r1: "copy_walk n clk s d s (w\<lparr>files := fs'\<rparr>) = Some r1"
      by (auto simp: CopyOperation_execute_def split: option.splits)
    then have p: "prefix (stdout w) (stdout (world_of r1))"
      using prefix_stdout_copy_walk by fastforce
    show ?thesis
    proof (cases r1)
      case (Raised e w')
      with True Inr r1 assms p show ?thesis by (auto simp: CopyOperation_execute_def)
    next
      case (Returned w')
      with True Inr r1 assms
      have "r = Returned (Logger_info clk ''Copy operation completed successfully.'' w')"
        by (auto simp: CopyOperation_execute_def)
      with p Returned show ?thesis
        using prefix_stdout_Logger_info prefix_order.trans by fastforce
    qed
  qed
qed

lemma prefix_stdout_delete_execute:
  "prefix (stdout w) (stdout (world_of (DeleteOperation_execute clk t r w)))"
  by (auto simp: DeleteOperation_execute_def delete_try_def stdout_Logger_info
      stdout_Logger_error split: sum.splits if_splits)

lemma prefix_stdout_execute:
  "Operation_execute n clk op w = Some r \<Longrightarrow> prefix (stdout w) (stdout (world_of r))"
  by (cases op) (auto simp: prefix_stdout_copy_execute prefix_stdout_delete_execute)

lemma for_each_raised:
  "for_each body xs w = Some (Raised e w') \<Longrightarrow> \<exists>x \<in> set xs. \<exists>wa. body x wa = Some (Raised e w')"
  by (induction xs arbitrary: w) (auto split: option.splits outcome.splits)

lemma for_each_total:
  assumes "\<And>x w. x \<in> set xs \<Longrightarrow> \<exists>w'. body x w = Some (Returned w')"
  shows "\<exists>w'. for_each body xs w = Some (Returned w')"
  using assms
proof (induction xs arbitrary: w)
  case Nil
  show ?case by simp
next
  case (Cons x xs)
  obtain w1 where "body x w = Some (Returned w1)" using Cons.prems by fastforce
  moreover obtain w2 where "for_each body xs w1 = Some (Returned w2)"
    using Cons.IH Cons.prems by fastforce
  ultimately show ?case by simp
qed

lemma for_each_returned_trace:
  "for_each (Operation_execute n clk) ops w = Some (Returned w') \<Longrightarrow>
   \<exists>ws. runs_through n clk ops w ws \<and> w' = last (w # ws)"
proof (induction ops arbitrary: w)
  case Nil
  then show ?case by simp
next
  case (Cons op ops)
  from Cons.prems obtain w1 where ex: "Operation_execute n clk op w = Some (Returned w1)"
    and rest: "for_each (Operation_execute n clk) ops w1 = Some (Returned w')"
    by (auto split: option.splits outcome.splits)
  from Cons.IH [OF rest] obtain ws where ws: "runs_through n clk ops w1 ws" "w' = last (w1 # ws)"
    by blast
  have "runs_through n clk (op # ops) w (w1 # ws)" using ex ws(1) by simp
  moreover have "w' = last (w # w1 # ws)" using ws(2) by simp
  ultimately show ?case by blast
qed

lemma trace_for_each_returned:
  "runs_through n clk ops w ws \<Longrightarrow>
   for_each (Operation_execute n clk) ops w = Some (Returned (last (w # ws)))"
proof (induction ops arbitrary: w ws)
  case Nil
  then show ?case by simp
next
  case (Cons op ops)
  from Cons.prems obtain w1 ws' where ws: "ws = w1 # ws'"
    and ex: "Operation_execute n clk op w = Some (Returned w1)"
    and rest: "runs_through n clk ops w1 ws'"
    by (cases ws) auto
  from Cons.IH [OF rest] ex ws show ?case by simp
qed

lemma for_each_raised_trace:
  "for_each (Operation_execute n clk) ops w = Some (Raised e w') \<Longrightarrow>
   \<exists>done op rest ws. ops = done @ op # rest \<and> runs_through n clk done w ws
     \<and> Operation_execute n clk op (last (w # ws)) = Some (Raised e w')"
proof (induction ops arbitrary: w)
  case Nil
  then show ?case by simp
next
  case (Cons op0 ops)
  from Cons.prems obtain r0 where r0: "Operation_execute n clk op0 w = Some r0"
    by (auto split: option.splits)
  show ?case
  proof (cases r0)
    case (Raised e0 w0)
    with r0 Cons.prems have "Operation_execute n clk op0 (last (w # [])) = Some (Raised e w')"
      by simp
    moreover have "op0 # ops = [] @ op0 # ops" by simp
    moreover have "runs_through n clk [] w []" by simp
    ultimately show ?thesis by blast
  next
    case (Returned w1)
    with r0 Cons.prems have "for_each (Operation_execute n clk) ops w1 = Some (Raised e w')"
      by simp
    from Cons.IH [OF this] obtain dn op rest ws where split: "ops = dn @ op # rest"
      and tr: "runs_through n clk dn w1 ws"
      and ex: "Operation_execute n clk op (last (w1 # ws)) = Some (Raised e w')"
      by blast
    have "op0 # ops = (op0 # dn) @ op # rest" using split by simp
    moreover have "runs_through n clk (op0 # dn) w (w1 # ws)" using r0 Returned tr by simp
    moreover have "Operation_execute n clk op (last (w # w1 # ws)) = Some (Raised e w')"
      using ex by simp
    ultimately show ?thesis by blast
  qed
qed

lemma trace_for_each_raised:
  "runs_through n clk dn w ws \<Longrightarrow>
   Operation_execute n clk op (last (w # ws)) = Some (Raised e w') \<Longrightarrow>
   for_each (Operation_execute n clk) (dn @ op # rest) w = Some (Raised e w')"
proof (induction dn arbitrary: w ws)
  case Nil
  then show ?case by simp
next
  case (Cons op0 dn)
  from Cons.prems(1) obtain w1 ws' where ws: "ws = w1 # ws'"
    and ex: "Operation_execute n clk op0 w = Some (Returned w1)"
    and tr: "runs_through n clk dn w1 ws'"
    by (cases ws) auto
  have "Operation_execute n clk op (last (w1 # ws')) = Some (Raised e w')"
    using Cons.prems(2) ws by simp
  from Cons.IH [OF tr this] ex show ?case by simp
qed

lemma task_run_returned_iff:
  "MigrationTask_run n clk task w = Some (Returned w') \<longleftrightarrow>
     (\<exists>ws. runs_through n clk (operations task)
             (Logger_info clk (''Starting task: '' @ name task) w) ws
        \<and> w' = Logger_info clk (''Completed task: '' @ name task)
                 (last (Logger_info clk (''Starting task: '' @ name task) w # ws)))"
proof
  let ?w0 = "Logger_info clk (''Starting task: '' @ name task) w"
  assume "MigrationTask_run n clk task w = Some (Returned w')"
  then obtain w1 where f: "for_each (Operation_execute n clk) (operations task) ?w0 = Some (Returned w1)"
    and w': "w' = Logger_info clk (''Completed task: '' @ name task) w1"
    by (auto simp: MigrationTask_run_def split: option.splits outcome.splits)
  from for_each_returned_trace [OF f] w'
  show "\<exists>ws. runs_through n clk (operations task) ?w0 ws
        \<and> w' = Logger_info clk (''Completed task: '' @ name task) (last (?w0 # ws))"
    by blast
next
  let ?w0 = "Logger_info clk (''Starting task: '' @ name task) w"
  assume "\<exists>ws. runs_through n clk (operations task) ?w0 ws
        \<and> w' = Logger_info clk (''Completed task: '' @ name task) (last (?w0 # ws))"
  then obtain ws where tr: "runs_through n clk (operations task) ?w0 ws"
    and w': "w' = Logger_info clk (''Completed task: '' @ name task) (last (?w0 # ws))"
    by blast
  from trace_for_each_returned [OF tr] w'
  show "MigrationTask_run n clk task w = Some (Returned w')"
    by (simp add: MigrationTask_run_def del: last.simps)
qed

lemma task_run_raised_iff:
  "MigrationTask_run n clk task w = Some (Raised e w') \<longleftrightarrow>
     (\<exists>dn s d rest ws. operations task = dn @ CopyOperation s d # rest
        \<and> runs_through n clk dn (Logger_info clk (''Starting task: '' @ name task) w) ws
        \<and> CopyOperation_execute n clk s d
             (last (Logger_info clk (''Starting task: '' @ name task) w # ws))
           = Some (Raised e w'))"
proof
  let ?w0 = "Logger_info clk (''Starting task: '' @ name task) w"
  assume "MigrationTask_run n clk task w = Some (Raised e w')"
  then have f: "for_each (Operation_execute n clk) (operations task) ?w0 = Some (Raised e w')"
    by (auto simp: MigrationTask_run_def split: option.splits outcome.splits)
  from for_each_raised_trace [OF f] obtain dn op rest ws
    where split: "operations task = dn @ op # rest"
      and tr: "runs_through n clk dn ?w0 ws"
      and ex: "Operation_execute n clk op (last (?w0 # ws)) = Some (Raised e w')"
    by blast
  obtain s d where op: "op = CopyOperation s d"
  proof (cases op)
    case (CopyOperation s d)
    then show ?thesis using that by blast
  next
    case (DeleteOperation t b)
    with ex delete_never_raises [of clk t b "last (?w0 # ws)"] show ?thesis by auto
  qed
  from ex op have "CopyOperation_execute n clk s d (last (?w0 # ws)) = Some (Raised e w')"
    by (simp only: Operation_execute.simps)
  with split tr op
  show "\<exists>dn s d rest ws. operations task = dn @ CopyOperation s d # rest
        \<and> runs_through n clk dn ?w0 ws
        \<and> CopyOperation_execute n clk s d (last (?w0 # ws)) = Some (Raised e w')"
    by blast
next
  let ?w0 = "Logger_info clk (''Starting task: '' @ name task) w"
  assume "\<exists>dn s d rest ws. operations task = dn @ CopyOperation s d # rest
        \<and> runs_through n clk dn ?w0 ws
        \<and> CopyOperation_execute n clk s d (last (?w0 # ws)) = Some (Raised e w')"
  then obtain dn s d rest ws where split: "operations task = dn @ CopyOperation s d # rest"
    and tr: "runs_through n clk dn ?w0 ws"
    and ex: "CopyOperation_execute n clk s d (last (?w0 # ws)) = Some (Raised e w')"
    by blast
  from ex have "Operation_execute n clk (CopyOperation s d) (last (?w0 # ws)) = Some (Raised e w')"
    by (simp only: Operation_execute.simps)
  from trace_for_each_raised [OF tr this, of rest] split
  show "MigrationTask_run n clk task w = Some (Raised e w')"
    by (simp add: MigrationTask_run_def del: last.simps)
qed

lemma task_run_output:
  assumes run: "MigrationTask_run n clk task w = Some r"
  shows "(case r of
         Returned w' \<Rightarrow>
           \<exists>mid. stdout w' =
             stdout w
             @ [''['' @ clk (length (stdout w)) @ ''] [INF] - Starting task: '' @ name task]
             @ mid
             @ [''['' @ clk (Suc (length (stdout w) + length mid))
                  @ ''] [INF] - Completed task: '' @ name task]
       | Raised e w' \<Rightarrow>
           (\<exists>s d. CopyOperation s d \<in> set (operations task))
           \<and> (\<exists>mid. stdout w' =
                 stdout w
                 @ [''['' @ clk (length (stdout w)) @ ''] [INF] - Starting task: '' @ name task]
                 @ mid))"
proof -
  let ?w0 = "Logger_info clk (''Starting task: '' @ name task) w"
  from run obtain r1 where r1: "for_each (Operation_execute n clk) (operations task) ?w0 = Some r1"
    by (auto simp: MigrationTask_run_def split: option.splits)
  have "prefix (stdout ?w0) (stdout (world_of r1))"
    using prefix_stdout_execute r1 by (rule prefix_stdout_for_each)
  then obtain mid where mid: "stdout (world_of r1) = stdout ?w0 @ mid"
    by (auto simp: prefix_def)
  show ?thesis
  proof (cases r1)
    case (Returned w1)
    with run r1 have "r = Returned (Logger_info clk (''Completed task: '' @ name task) w1)"
      by (simp add: MigrationTask_run_def)
    with mid Returned show ?thesis by (simp add: stdout_Logger_info)
  next
    case (Raised e w1)
    with run r1 have r: "r = Raised e w1" by (simp add: MigrationTask_run_def)
    from r1 Raised obtain op wa where op: "op \<in> set (operations task)"
      and ex: "Operation_execute n clk op wa = Some (Raised e w1)"
      using for_each_raised by fastforce
    have "\<exists>s d. op = CopyOperation s d"
    proof (cases op)
      case (CopyOperation s d)
      then show ?thesis by blast
    next
      case (DeleteOperation t b)
      with ex delete_never_raises [of clk t b wa] show ?thesis by auto
    qed
    with op r mid Raised show ?thesis by (auto simp: stdout_Logger_info)
  qed
qed

lemma task_run_delete_only:
  assumes del: "\<forall>op \<in> set (operations task). \<exists>t b. op = DeleteOperation t b"
  shows "\<exists>w'. MigrationTask_run n clk task w = Some (Returned w')"
proof -
  let ?w0 = "Logger_info clk (''Starting task: '' @ name task) w"
  have "\<exists>w'. Operation_execute n clk op wa = Some (Returned w')"
    if "op \<in> set (operations task)" for op wa
    using that del delete_never_raises by fastforce
  then obtain w1 where "for_each (Operation_execute n clk) (operations task) ?w0 = Some (Returned w1)"
    using for_each_total [of "operations task" "Operation_execute n clk" ?w0] by blast
  then show ?thesis
    by (simp add: MigrationTask_run_def)
qed

text \<open>
  Claim C8, as the code has it. A run returns exactly when the operations of the task,
  started in the world after the start line, return one after the other, each in the
  world the one before it left; the result is then the world after the last operation
  plus the completion line. A run raises exactly when the operations up to some
  \<^verbatim>\<open>CopyOperation\<close> return in that way and the copy raises; the result is then the
  very world in which the copy raised, so the operations after it are not executed
  and nothing more is printed, the completion line included. A raise can only come
  from a \<^verbatim>\<open>CopyOperation\<close>: \<^verbatim>\<open>DeleteOperation.execute\<close> never raises, while the two
  \<^verbatim>\<open>mkdir\<close> calls of \<^verbatim>\<open>CopyOperation.execute\<close> stand outside its \<^verbatim>\<open>try\<close>. On the
  output, a run that returned printed the start line first and the completion line
  last. A task of delete operations alone always returns. A task whose copy operations
  keep source and destination apart always finishes, in one of the two ways, once the
  walk has enough fuel.
\<close>

theorem task_run_completion:
  "(MigrationTask_run n clk task w = Some (Returned w') \<longleftrightarrow>
      (\<exists>ws. runs_through n clk (operations task)
              (Logger_info clk (''Starting task: '' @ name task) w) ws
         \<and> w' = Logger_info clk (''Completed task: '' @ name task)
                  (last (Logger_info clk (''Starting task: '' @ name task) w # ws))))
   \<and> (MigrationTask_run n clk task w = Some (Raised e wr) \<longleftrightarrow>
      (\<exists>dn s d rest ws. operations task = dn @ CopyOperation s d # rest
         \<and> runs_through n clk dn (Logger_info clk (''Starting task: '' @ name task) w) ws
         \<and> CopyOperation_execute n clk s d
              (last (Logger_info clk (''Starting task: '' @ name task) w # ws))
            = Some (Raised e wr)))
   \<and> (MigrationTask_run n clk task w = Some r \<longrightarrow>
      (case r of
         Returned w' \<Rightarrow>
           \<exists>mid. stdout w' =
             stdout w
             @ [''['' @ clk (length (stdout w)) @ ''] [INF] - Starting task: '' @ name task]
             @ mid
             @ [''['' @ clk (Suc (length (stdout w) + length mid))
                  @ ''] [INF] - Completed task: '' @ name task]
       | Raised e w' \<Rightarrow>
           (\<exists>s d. CopyOperation s d \<in> set (operations task))
           \<and> (\<exists>mid. stdout w' =
                 stdout w
                 @ [''['' @ clk (length (stdout w)) @ ''] [INF] - Starting task: '' @ name task]
                 @ mid)))
   \<and> ((\<forall>op \<in> set (operations task). \<exists>t b. op = DeleteOperation t b) \<longrightarrow>
        (\<exists>w'. MigrationTask_run n clk task w = Some (Returned w')))
   \<and> ((\<forall>op \<in> set (operations task). \<forall>s d. op = CopyOperation s d \<longrightarrow>
           \<not> prefix s d \<and> \<not> prefix d s) \<longrightarrow>
        (\<exists>k0 res. \<forall>k \<ge> k0. MigrationTask_run k clk task w = Some res))"
proof (intro conjI)
  show "MigrationTask_run n clk task w = Some (Returned w') \<longleftrightarrow>
      (\<exists>ws. runs_through n clk (operations task)
              (Logger_info clk (''Starting task: '' @ name task) w) ws
         \<and> w' = Logger_info clk (''Completed task: '' @ name task)
                  (last (Logger_info clk (''Starting task: '' @ name task) w # ws)))"
    by (rule task_run_returned_iff)
  show "MigrationTask_run n clk task w = Some (Raised e wr) \<longleftrightarrow>
      (\<exists>dn s d rest ws. operations task = dn @ CopyOperation s d # rest
         \<and> runs_through n clk dn (Logger_info clk (''Starting task: '' @ name task) w) ws
         \<and> CopyOperation_execute n clk s d
              (last (Logger_info clk (''Starting task: '' @ name task) w # ws))
            = Some (Raised e wr))"
    by (rule task_run_raised_iff)
  show "MigrationTask_run n clk task w = Some r \<longrightarrow>
      (case r of
         Returned w' \<Rightarrow>
           \<exists>mid. stdout w' =
             stdout w
             @ [''['' @ clk (length (stdout w)) @ ''] [INF] - Starting task: '' @ name task]
             @ mid
             @ [''['' @ clk (Suc (length (stdout w) + length mid))
                  @ ''] [INF] - Completed task: '' @ name task]
       | Raised e w' \<Rightarrow>
           (\<exists>s d. CopyOperation s d \<in> set (operations task))
           \<and> (\<exists>mid. stdout w' =
                 stdout w
                 @ [''['' @ clk (length (stdout w)) @ ''] [INF] - Starting task: '' @ name task]
                 @ mid))"
    by (rule impI) (rule task_run_output)
  show "(\<forall>op \<in> set (operations task). \<exists>t b. op = DeleteOperation t b) \<longrightarrow>
        (\<exists>w'. MigrationTask_run n clk task w = Some (Returned w'))"
    by (rule impI) (rule task_run_delete_only)
  show "(\<forall>op \<in> set (operations task). \<forall>s d. op = CopyOperation s d \<longrightarrow>
           \<not> prefix s d \<and> \<not> prefix d s) \<longrightarrow>
        (\<exists>k0 res. \<forall>k \<ge> k0. MigrationTask_run k clk task w = Some res)"
    by (rule impI) (rule task_run_fuel)
qed

theorem task_run_completion_witness:
  "MigrationTask_run 0 noon
      \<lparr>name = ''Delete Shortcut'', operations = [DeleteOperation [''menu.lnk''] False]\<rparr>
      demo_world =
     Some (Returned
       \<lparr>files = [([], Dir), ([''old''], Dir), ([''old'', ''a.txt''], File [1, 2]),
                 ([''old'', ''sub''], Dir), ([''old'', ''sub'', ''b.txt''], File [3])],
          stdout = [''[12:00:00] [INF] - Starting task: Delete Shortcut'',
                    ''[12:00:00] [INF] - Deleted file: /menu.lnk'',
                    ''[12:00:00] [INF] - Completed task: Delete Shortcut'']\<rparr>)
   \<and> (\<exists>ws. runs_through 0 noon [DeleteOperation [''menu.lnk''] False]
              (Logger_info noon ''Starting task: Delete Shortcut'' demo_world) ws
         \<and> \<lparr>files = [([], Dir), ([''old''], Dir), ([''old'', ''a.txt''], File [1, 2]),
                     ([''old'', ''sub''], Dir), ([''old'', ''sub'', ''b.txt''], File [3])],
              stdout = [''[12:00:00] [INF] - Starting task: Delete Shortcut'',
                        ''[12:00:00] [INF] - Deleted file: /menu.lnk'',
                        ''[12:00:00] [INF] - Completed task: Delete Shortcut'']\<rparr>
             = Logger_info noon ''Completed task: Delete Shortcut''
                 (last (Logger_info noon ''Starting task: Delete Shortcut'' demo_world # ws)))
   \<and> (\<exists>mid. [''[12:00:00] [INF] - Starting task: Delete Shortcut'',
              ''[12:00:00] [INF] - Deleted file: /menu.lnk'',
              ''[12:00:00] [INF] - Completed task: Delete Shortcut''] =
             [''[12:00:00] [INF] - Starting task: Delete Shortcut''] @ mid
             @ [''[12:00:00] [INF] - Completed task: Delete Shortcut''])
   \<and> MigrationTask_run 3 noon
        \<lparr>name = ''Copy Game Files'', operations = [CopyOperation [''old''] [''new'']]\<rparr>
        demo_blocked =
       Some (Raised FileExistsError
         \<lparr>files = demo_files @ [([''new''], File [7])],
            stdout = [''[12:00:00] [INF] - Starting task: Copy Game Files'']\<rparr>)
   \<and> (\<exists>dn s d rest ws. [CopyOperation [''old''] [''new'']] = dn @ CopyOperation s d # rest
         \<and> runs_through 3 noon dn
               (Logger_info noon ''Starting task: Copy Game Files'' demo_blocked) ws
         \<and> CopyOperation_execute 3 noon s d
               (last (Logger_info noon ''Starting task: Copy Game Files'' demo_blocked # ws))
             = Some (Raised FileExistsError
                 \<lparr>files = demo_files @ [([''new''], File [7])],
                    stdout = [''[12:00:00] [INF] - Starting task: Copy Game Files'']\<rparr>))
   \<and> (\<exists>k0 res. \<forall>k \<ge> k0.
         MigrationTask_run k noon
           \<lparr>name = ''Copy Game Files'', operations = [CopyOperation [''old''] [''new'']]\<rparr>
           demo_world = Some res)"
proof -
  let ?t = "\<lparr>name = ''Delete Shortcut'', operations = [DeleteOperation [''menu.lnk''] False]\<rparr>"
  let ?c = "\<lparr>name = ''Copy Game Files'', operations = [CopyOperation [''old''] [''new'']]\<rparr>"
  let ?w' = "\<lparr>files = [([], Dir), ([''old''], Dir), ([''old'', ''a.txt''], File [1, 2]),
                 ([''old'', ''sub''], Dir), ([''old'', ''sub'', ''b.txt''], File [3])],
          stdout = [''[12:00:00] [INF] - Starting task: Delete Shortcut'',
                    ''[12:00:00] [INF] - Deleted file: /menu.lnk'',
                    ''[12:00:00] [INF] - Completed task: Delete Shortcut'']\<rparr>"
  let ?stuck = "\<lparr>files = demo_files @ [([''new''], File [7])],
            stdout = [''[12:00:00] [INF] - Starting task: Copy Game Files'']\<rparr>"
  have run: "MigrationTask_run 0 noon ?t demo_world = Some (Returned ?w')"
    by (simp add: model_defs)
  have blocked: "MigrationTask_run 3 noon ?c demo_blocked = Some (Raised FileExistsError ?stuck)"
    by (simp add: model_defs)
  have del: "\<forall>op \<in> set (operations ?t). \<exists>t b. op = DeleteOperation t b" by auto
  have apart: "\<forall>op \<in> set (operations ?c). \<forall>s d. op = CopyOperation s d \<longrightarrow>
      \<not> prefix s d \<and> \<not> prefix d s" by simp
  note t1 = task_run_completion [where n = 0 and clk = noon and task = ?t and w = demo_world
      and w' = ?w' and r = "Returned ?w'"]
  from t1 run
  have a: "\<exists>ws. runs_through 0 noon [DeleteOperation [''menu.lnk''] False]
              (Logger_info noon ''Starting task: Delete Shortcut'' demo_world) ws
         \<and> ?w' = Logger_info noon ''Completed task: Delete Shortcut''
                 (last (Logger_info noon ''Starting task: Delete Shortcut'' demo_world # ws))"
    by (simp del: last.simps runs_through.simps)
  from t1 run del
  have b: "\<exists>mid. [''[12:00:00] [INF] - Starting task: Delete Shortcut'',
              ''[12:00:00] [INF] - Deleted file: /menu.lnk'',
              ''[12:00:00] [INF] - Completed task: Delete Shortcut''] =
             [''[12:00:00] [INF] - Starting task: Delete Shortcut''] @ mid
             @ [''[12:00:00] [INF] - Completed task: Delete Shortcut'']"
    by (simp add: noon_def demo_world_def del: last.simps runs_through.simps)
  from task_run_completion [where n = 3 and clk = noon and task = ?c and w = demo_blocked
      and e = FileExistsError and wr = ?stuck] blocked
  have c: "\<exists>dn s d rest ws. [CopyOperation [''old''] [''new'']] = dn @ CopyOperation s d # rest
         \<and> runs_through 3 noon dn
               (Logger_info noon ''Starting task: Copy Game Files'' demo_blocked) ws
         \<and> CopyOperation_execute 3 noon s d
               (last (Logger_info noon ''Starting task: Copy Game Files'' demo_blocked # ws))
             = Some (Raised FileExistsError ?stuck)"
    by (simp del: last.simps runs_through.simps)
  from task_run_completion [where task = ?c and clk = noon and w = demo_world] apart
  have d: "\<exists>k0 res. \<forall>k \<ge> k0. MigrationTask_run k noon ?c demo_world = Some res"
    by blast
  from run a b blocked c d show ?thesis by blast
qed

text \<open>
  The claim as the specification states it fails when the destination of a copy is an
  existing regular file: \<^verbatim>\<open>self.dst.mkdir\<close> raises \<^verbatim>\<open>FileExistsError\<close>, nothing in
  \<^verbatim>\<open>execute\<close> catches it, and the task ends without its completion line.
\<close>

theorem task_run_completion_counterexample:
  "MigrationTask_run 3 noon
      \<lparr>name = ''Copy Game Files'', operations = [CopyOperation [''old''] [''new'']]\<rparr>
      demo_blocked =
   Some (Raised FileExistsError
      \<lparr>files = demo_files @ [([''new''], File [7])],
         stdout = [''[12:00:00] [INF] - Starting task: Copy Game Files'']\<rparr>)"
  by (simp add: model_defs)

section \<open>DrakensangMigrator.perform_migration\<close>

lemma tasks_list:
  "List.map_filter id (migration_tasks m) =
     \<lparr>name = ''Copy Game Files'',
        operations = [CopyOperation (source m) (destination m)]\<rparr> #
     (case shortcut m of
        None \<Rightarrow> []
      | Some s \<Rightarrow> [\<lparr>name = ''Delete Shortcut'', operations = [DeleteOperation s False]\<rparr>]) @
     [\<lparr>name = ''Remove Old Installation'', operations = [DeleteOperation (source m) True]\<rparr>]"
  by (simp add: migration_tasks_def List.map_filter_simps split: option.splits)

lemma tasks_snoc:
  "\<exists>ts. List.map_filter id (migration_tasks m) =
     ts @ [\<lparr>name = ''Remove Old Installation'', operations = [DeleteOperation (source m) True]\<rparr>]"
proof -
  have "List.map_filter id (migration_tasks m) =
     (\<lparr>name = ''Copy Game Files'',
        operations = [CopyOperation (source m) (destination m)]\<rparr> #
     (case shortcut m of
        None \<Rightarrow> []
      | Some s \<Rightarrow> [\<lparr>name = ''Delete Shortcut'', operations = [DeleteOperation s False]\<rparr>])) @
     [\<lparr>name = ''Remove Old Installation'', operations = [DeleteOperation (source m) True]\<rparr>]"
    by (simp add: tasks_list)
  then show ?thesis by blast
qed

lemma migration_returned_source_gone:
  assumes "perform_migration n clk m w = Some (Returned w1)"
  shows "\<not> path_exists (files w1) (source m)"
proof (cases "validate clk m (Logger_info clk ''Migration process initiated.'' w)")
  case (Inl early)
  with assms have "early = Returned w1" by (simp add: perform_migration_def)
  with Inl show ?thesis
    by (auto simp: validate_def Let_def split: if_splits sum.splits)
next
  case (Inr v)
  show ?thesis
  proof (cases v)
    case (Raised e w')
    with Inr assms show ?thesis by (simp add: perform_migration_def)
  next
    case (Returned w0)
    obtain ts where ts: "List.map_filter id (migration_tasks m) =
       ts @ [\<lparr>name = ''Remove Old Installation'', operations = [DeleteOperation (source m) True]\<rparr>]"
      using tasks_snoc by blast
    from assms Inr Returned obtain w3 where
      all: "for_each (MigrationTask_run n clk) (List.map_filter id (migration_tasks m)) w0
              = Some (Returned w3)"
      and w1: "w1 = Logger_info clk ''All migration tasks completed successfully.'' w3"
      by (auto simp: perform_migration_def split: option.splits outcome.splits)
    from all obtain w2 where
      "MigrationTask_run n clk
         \<lparr>name = ''Remove Old Installation'', operations = [DeleteOperation (source m) True]\<rparr> w2
       = Some (Returned w3)"
      unfolding ts for_each_append
      by (auto split: option.splits outcome.splits)
    then obtain wa wb where "DeleteOperation_execute clk (source m) True wa = Returned wb"
      and "w3 = Logger_info clk (''Completed task: '' @ ''Remove Old Installation'') wb"
      using run_delete_task by blast
    then show ?thesis using delete_recursive_absent w1 by simp
  qed
qed

text \<open>
  Claim C2. After a run of \<^verbatim>\<open>perform_migration\<close> that returned, a second run on the
  same paths changes nothing in the file system: it prints the initiation line and the
  \<^verbatim>\<open>ERR\<close> line of the failed precondition and returns, because the source is gone.
\<close>

theorem second_migration_noop:
  assumes "perform_migration n clk m w = Some (Returned w1)"
  shows "perform_migration n' clk m w1 =
     Some (Returned (w1\<lparr>stdout := stdout w1 @
        [''['' @ clk (length (stdout w1)) @ ''] [INF] - Migration process initiated.'',
         ''['' @ clk (Suc (length (stdout w1))) @ ''] [ERR] - Source directory not found: ''
           @ path_str (source m)]\<rparr>))"
  using migration_returned_source_gone [OF assms] by (rule perform_migration_source_absent)


theorem second_migration_noop_witness:
  "perform_migration 3 noon demo_migrator demo_world = Some (Returned demo_migrated)
   \<and> perform_migration 3 noon demo_migrator demo_migrated =
       Some (Returned (demo_migrated\<lparr>stdout := stdout demo_migrated @
          [''[12:00:00] [INF] - Migration process initiated.'',
           ''[12:00:00] [ERR] - Source directory not found: /old'']\<rparr>))"
proof -
  have first: "perform_migration 3 noon demo_migrator demo_world = Some (Returned demo_migrated)"
    by (simp add: model_defs)
  from second_migration_noop [OF first, of 3] first
  show ?thesis by (simp add: noon_def demo_migrator_def path_str_def)
qed

text \<open>
  Claim C7, as the code has it. The tasks that are run are, in this order, the copy of
  source to destination, the non-recursive delete of the shortcut exactly when a
  shortcut was given, and the recursive delete of the source. They run in that order,
  each after the one before it has returned: when the copy task returns, both delete
  tasks run and the migration returns; when the copy task raises, the exception leaves
  \<^verbatim>\<open>perform_migration\<close> and the delete tasks are not run.
\<close>

theorem migration_task_order:
  "List.map_filter id (migration_tasks m) =
     \<lparr>name = ''Copy Game Files'',
        operations = [CopyOperation (source m) (destination m)]\<rparr> #
     (case shortcut m of
        None \<Rightarrow> []
      | Some s \<Rightarrow> [\<lparr>name = ''Delete Shortcut'', operations = [DeleteOperation s False]\<rparr>]) @
     [\<lparr>name = ''Remove Old Installation'', operations = [DeleteOperation (source m) True]\<rparr>]
   \<and> (validate clk m (Logger_info clk ''Migration process initiated.'' w) = Inr (Returned wv)
        \<and> MigrationTask_run n clk
             \<lparr>name = ''Copy Game Files'',
                operations = [CopyOperation (source m) (destination m)]\<rparr> wv
           = Some (Returned wc) \<longrightarrow>
        (\<exists>w2 w3.
           (case shortcut m of
              None \<Rightarrow> w2 = wc
            | Some s \<Rightarrow>
                MigrationTask_run n clk
                  \<lparr>name = ''Delete Shortcut'', operations = [DeleteOperation s False]\<rparr> wc
                = Some (Returned w2))
           \<and> MigrationTask_run n clk
                 \<lparr>name = ''Remove Old Installation'',
                    operations = [DeleteOperation (source m) True]\<rparr> w2
               = Some (Returned w3)
           \<and> perform_migration n clk m w =
               Some (Returned
                 (Logger_info clk ''All migration tasks completed successfully.'' w3))))
   \<and> (validate clk m (Logger_info clk ''Migration process initiated.'' w) = Inr (Returned wv)
        \<and> MigrationTask_run n clk
             \<lparr>name = ''Copy Game Files'',
                operations = [CopyOperation (source m) (destination m)]\<rparr> wv
           = Some (Raised e wc) \<longrightarrow>
        perform_migration n clk m w = Some (Raised e wc))"
proof (intro conjI impI)
  show "List.map_filter id (migration_tasks m) =
     \<lparr>name = ''Copy Game Files'',
        operations = [CopyOperation (source m) (destination m)]\<rparr> #
     (case shortcut m of
        None \<Rightarrow> []
      | Some s \<Rightarrow> [\<lparr>name = ''Delete Shortcut'', operations = [DeleteOperation s False]\<rparr>]) @
     [\<lparr>name = ''Remove Old Installation'', operations = [DeleteOperation (source m) True]\<rparr>]"
    by (rule tasks_list)
next
  assume a: "validate clk m (Logger_info clk ''Migration process initiated.'' w) = Inr (Returned wv)
        \<and> MigrationTask_run n clk
             \<lparr>name = ''Copy Game Files'',
                operations = [CopyOperation (source m) (destination m)]\<rparr> wv
           = Some (Raised e wc)"
  then show "perform_migration n clk m w = Some (Raised e wc)"
    by (simp add: perform_migration_def tasks_list)
next
  assume a: "validate clk m (Logger_info clk ''Migration process initiated.'' w) = Inr (Returned wv)
        \<and> MigrationTask_run n clk
             \<lparr>name = ''Copy Game Files'',
                operations = [CopyOperation (source m) (destination m)]\<rparr> wv
           = Some (Returned wc)"
  obtain w2 where w2: "case shortcut m of
              None \<Rightarrow> w2 = wc
            | Some s \<Rightarrow>
                MigrationTask_run n clk
                  \<lparr>name = ''Delete Shortcut'', operations = [DeleteOperation s False]\<rparr> wc
                = Some (Returned w2)"
  proof (cases "shortcut m")
    case None
    then show ?thesis using that [of wc] by simp
  next
    case (Some s)
    obtain w' where "MigrationTask_run n clk
        \<lparr>name = ''Delete Shortcut'', operations = [DeleteOperation s False]\<rparr> wc
      = Some (Returned w')"
      using run_delete_task_returns by blast
    with Some show ?thesis using that [of w'] by simp
  qed
  obtain w3 where w3: "MigrationTask_run n clk
                 \<lparr>name = ''Remove Old Installation'',
                    operations = [DeleteOperation (source m) True]\<rparr> w2
               = Some (Returned w3)"
    using run_delete_task_returns by blast
  have "perform_migration n clk m w =
               Some (Returned
                 (Logger_info clk ''All migration tasks completed successfully.'' w3))"
    using a w2 w3 by (cases "shortcut m") (simp_all add: perform_migration_def tasks_list)
  with w2 w3 show "\<exists>w2 w3.
           (case shortcut m of
              None \<Rightarrow> w2 = wc
            | Some s \<Rightarrow>
                MigrationTask_run n clk
                  \<lparr>name = ''Delete Shortcut'', operations = [DeleteOperation s False]\<rparr> wc
                = Some (Returned w2))
           \<and> MigrationTask_run n clk
                 \<lparr>name = ''Remove Old Installation'',
                    operations = [DeleteOperation (source m) True]\<rparr> w2
               = Some (Returned w3)
           \<and> perform_migration n clk m w =
               Some (Returned
                 (Logger_info clk ''All migration tasks completed successfully.'' w3))"
    by blast
qed

theorem migration_task_order_witness:
  "validate noon demo_migrator (Logger_info noon ''Migration process initiated.'' demo_world)
     = Inr (Returned (Logger_info noon ''Migration process initiated.'' demo_world))
   \<and> MigrationTask_run 3 noon
        \<lparr>name = ''Copy Game Files'',
           operations = [CopyOperation (source demo_migrator) (destination demo_migrator)]\<rparr>
        (Logger_info noon ''Migration process initiated.'' demo_world)
      = Some (Returned demo_copied)
   \<and> perform_migration 3 noon demo_migrator demo_world = Some (Returned demo_migrated)
   \<and> validate noon demo_migrator (Logger_info noon ''Migration process initiated.'' demo_blocked)
     = Inr (Returned (Logger_info noon ''Migration process initiated.'' demo_blocked))
   \<and> MigrationTask_run 3 noon
        \<lparr>name = ''Copy Game Files'',
           operations = [CopyOperation (source demo_migrator) (destination demo_migrator)]\<rparr>
        (Logger_info noon ''Migration process initiated.'' demo_blocked)
      = Some (Raised FileExistsError
          (demo_blocked\<lparr>stdout :=
             [''[12:00:00] [INF] - Migration process initiated.'',
              ''[12:00:00] [INF] - Starting task: Copy Game Files'']\<rparr>))
   \<and> perform_migration 3 noon demo_migrator demo_blocked
      = Some (Raised FileExistsError
          (demo_blocked\<lparr>stdout :=
             [''[12:00:00] [INF] - Migration process initiated.'',
              ''[12:00:00] [INF] - Starting task: Copy Game Files'']\<rparr>))"
proof -
  let ?init = "Logger_info noon ''Migration process initiated.''"
  let ?copy = "\<lparr>name = ''Copy Game Files'',
      operations = [CopyOperation (source demo_migrator) (destination demo_migrator)]\<rparr>"
  let ?stuck = "demo_blocked\<lparr>stdout :=
             [''[12:00:00] [INF] - Migration process initiated.'',
              ''[12:00:00] [INF] - Starting task: Copy Game Files'']\<rparr>"
  have v1: "validate noon demo_migrator (?init demo_world) = Inr (Returned (?init demo_world))"
    by (simp add: model_defs)
  have c1: "MigrationTask_run 3 noon ?copy (?init demo_world) = Some (Returned demo_copied)"
    by (simp add: model_defs)
  have v2: "validate noon demo_migrator (?init demo_blocked) = Inr (Returned (?init demo_blocked))"
    by (simp add: model_defs)
  have c2: "MigrationTask_run 3 noon ?copy (?init demo_blocked) = Some (Raised FileExistsError ?stuck)"
    by (simp add: model_defs)
  have all: "perform_migration 3 noon demo_migrator demo_world = Some (Returned demo_migrated)"
    by (simp add: model_defs)
  from migration_task_order [where m = demo_migrator and clk = noon and w = demo_blocked
      and wv = "?init demo_blocked" and n = 3 and wc = ?stuck and e = FileExistsError] v2 c2
  have "perform_migration 3 noon demo_migrator demo_blocked = Some (Raised FileExistsError ?stuck)"
    by blast
  with v1 c1 v2 c2 all show ?thesis by blast
qed

text \<open>
  The claim as the specification states it fails when the copy task raises: with a
  regular file at the destination the migration has started, the copy task ends in
  \<^verbatim>\<open>FileExistsError\<close>, and the shortcut and the old installation are still there,
  because the two delete tasks were skipped.
\<close>

theorem migration_task_order_counterexample:
  "perform_migration 3 noon demo_migrator demo_blocked =
     Some (Raised FileExistsError
       \<lparr>files = demo_files @ [([''new''], File [7])],
          stdout = [''[12:00:00] [INF] - Migration process initiated.'',
                    ''[12:00:00] [INF] - Starting task: Copy Game Files'']\<rparr>)
   \<and> path_exists (demo_files @ [([''new''], File [7])]) [''menu.lnk'']
   \<and> path_exists (demo_files @ [([''new''], File [7])]) [''old'']"
  by (simp add: model_defs)

end
